theory Spec2Isabelle
  imports Main "HOL-Library.AList"
begin

section \<open>Paws and Preferences: the deck, the image pool and the readiness counters\<close>

text \<open>
  A shallow embedding of \<^verbatim>\<open>src/App.tsx\<close>. The component's \<^verbatim>\<open>useState\<close> cells and
  \<^verbatim>\<open>useRef\<close> cells are the fields of one record; every handler, effect and callback of
  the component is a function from that record to the updated record. What the browser
  keeps for the component (the pending \<^verbatim>\<open>setTimeout\<close> callbacks, the registry of live
  object URLs, the suspended \<^verbatim>\<open>async\<close> jobs of every prefetch pass with their
  \<^verbatim>\<open>cancelled\<close> variable) is part of the same record, so that a callback that runs later
  is an event applied to the state of that later moment.
\<close>

subsection \<open>Data\<close>

text \<open>\<^verbatim>\<open>type CatCard = { id: string; url: string }\<close>. The field \<^verbatim>\<open>id\<close> is written
  \<open>id_cat\<close>, since \<open>id\<close> is the identity function of HOL.\<close>

record CatCard =
  id_cat :: string
  url :: string

definition TOTAL_CATS :: nat where
  "TOTAL_CATS = 12"

definition SWIPE_ANIMATION_MS :: nat where
  "SWIPE_ANIMATION_MS = 240"

definition INITIAL_READY_COUNT :: nat where
  "INITIAL_READY_COUNT = 3"

text \<open>The decimal digits of an array index, as a template literal prints a number.\<close>

fun string_of_nat :: "nat \<Rightarrow> string" where
  "string_of_nat n =
     (if n < 10 then [''0123456789'' ! n]
      else string_of_nat (n div 10) @ [''0123456789'' ! (n mod 10)])"

declare string_of_nat.simps [simp del]

text \<open>
  \<^verbatim>\<open>generateDeck(count)\<close>. The deck identifier (\<^verbatim>\<open>crypto.randomUUID()\<close>, or the time and
  random composite) is drawn by the environment, so it is an argument.
\<close>

definition generateDeck :: "string \<Rightarrow> nat \<Rightarrow> CatCard list" where
  "generateDeck deckId count =
     map (\<lambda>index.
            \<lparr> id_cat = deckId @ ''-'' @ string_of_nat index,
              url = ''https://cataas.com/cat?width=560&height=720&format=jpg&deck=''
                      @ deckId @ ''-'' @ string_of_nat index \<rparr>)
         [0..<count]"

text \<open>\<^verbatim>\<open>'left' | 'right'\<close>\<close>

datatype direction = Left | Right

text \<open>
  What the network delivers to one job of \<^verbatim>\<open>loadDeck\<close>: \<^verbatim>\<open>fetch\<close> rejects, the response
  is not \<^verbatim>\<open>ok\<close>, \<^verbatim>\<open>response.blob()\<close> rejects, or a blob arrives; in the last case the
  string is what the browser puts after \<^verbatim>\<open>blob:\<close> in the URL that
  \<^verbatim>\<open>URL.createObjectURL\<close> returns for it.
\<close>

datatype fetch_outcome = NetworkError | BadStatus | BlobFailure | Fetched string

text \<open>What a \<^verbatim>\<open>try\<close> block can throw here.\<close>

datatype error = FetchRejected | FailedToFetchCatImage | BlobRejected

text \<open>The promise that one \<^verbatim>\<open>async (cat) => ...\<close> call returned.\<close>

datatype promise = Pending | Fulfilled | Rejected error

fun isRejected :: "promise \<Rightarrow> bool" where
  "isRejected (Rejected e) = True"
| "isRejected Pending = False"
| "isRejected Fulfilled = False"

text \<open>
  One run of the prefetch effect: its \<^verbatim>\<open>cancelled\<close> variable, the promises of
  \<^verbatim>\<open>fetchJobs\<close> (each with the \<^verbatim>\<open>url\<close> its closure holds), and whether \<^verbatim>\<open>loadDeck\<close> is
  suspended at \<^verbatim>\<open>await Promise.all(fetchJobs)\<close>.
\<close>

record prefetchPass =
  cancelled :: bool
  fetchJobs :: "(string \<times> promise) list"
  awaitingAll :: bool

text \<open>
  The component. \<open>imagePool\<close> is the \<^verbatim>\<open>Map<string, string>\<close> of \<^verbatim>\<open>imagePoolRef\<close> in
  insertion order, \<open>inFlight\<close> the \<^verbatim>\<open>Set<string>\<close> of \<^verbatim>\<open>inFlightRef\<close>, \<open>version\<close> the
  counter behind \<^verbatim>\<open>forceRerender\<close>. \<open>dragX\<close> is a JavaScript number; only whole pixels
  are modelled. The last four fields are the browser's: the pending timeouts (identifier,
  and the \<^verbatim>\<open>direction\<close> and \<^verbatim>\<open>chosenCat\<close> of the callback's closure), the next timeout
  identifier, the live object URLs, and every prefetch pass started so far, the latest
  last.
\<close>

record app =
  cats :: "CatCard list"
  activeIndex :: nat
  liked :: "CatCard list"
  swipeDirection :: "direction option"
  dragX :: int
  isAnimating :: bool
  isDeckReady :: bool
  readyCount :: nat
  timeoutRef :: "nat option"
  imagePool :: "(string \<times> string) list"
  inFlight :: "string set"
  version :: nat
  timers :: "(nat \<times> direction \<times> CatCard) list"
  nextTimer :: nat
  objectUrls :: "string set"
  passes :: "prefetchPass list"

subsection \<open>The image pool\<close>

text \<open>\<^verbatim>\<open>objectUrl.startsWith('blob:')\<close>\<close>

definition startsWith :: "string \<Rightarrow> string \<Rightarrow> bool" where
  "startsWith str prefix = (take (length prefix) str = prefix)"

text \<open>\<^verbatim>\<open>cache.has(url)\<close>; \<^verbatim>\<open>cache.set(url, v)\<close> is \<^const>\<open>AList.update\<close>, which keeps the
  position of a key that is present and appends a new one; \<^verbatim>\<open>cache.get(url)\<close> is
  \<^const>\<open>map_of\<close>.\<close>

definition Map_has :: "(string \<times> string) list \<Rightarrow> string \<Rightarrow> bool" where
  "Map_has m k = (k \<in> set (map fst m))"

text \<open>\<^verbatim>\<open>URL.createObjectURL(blob)\<close>: registers and returns a \<^verbatim>\<open>blob:\<close> URL.\<close>

definition createObjectURL :: "string \<Rightarrow> app \<Rightarrow> string \<times> app" where
  "createObjectURL handle s =
     (''blob:'' @ handle, s\<lparr>objectUrls := insert (''blob:'' @ handle) (objectUrls s)\<rparr>)"

text \<open>\<^verbatim>\<open>URL.revokeObjectURL(u)\<close>: the URL is no longer live; nothing happens for a string
  that is not a live object URL.\<close>

definition revokeObjectURL :: "string \<Rightarrow> app \<Rightarrow> app" where
  "revokeObjectURL u s = s\<lparr>objectUrls := objectUrls s - {u}\<rparr>"

text \<open>The callback that \<^verbatim>\<open>releasePool\<close> hands to \<^verbatim>\<open>forEach\<close> (lines 41 to 45).\<close>

definition releaseEntry :: "string \<Rightarrow> app \<Rightarrow> app" where
  "releaseEntry objectUrl s =
     (if startsWith objectUrl ''blob:'' then revokeObjectURL objectUrl s else s)"

definition releasePool :: "app \<Rightarrow> app" where
  "releasePool s =
     (fold releaseEntry (map snd (imagePool s)) s)\<lparr>imagePool := [], inFlight := {}\<rparr>"


subsection \<open>Classification\<close>

text \<open>\<^verbatim>\<open>cats[activeIndex]\<close>, which is \<^verbatim>\<open>undefined\<close> past the end of the deck.\<close>

definition currentCat :: "app \<Rightarrow> CatCard option" where
  "currentCat s =
     (if activeIndex s < length (cats s) then Some (cats s ! activeIndex s) else None)"

definition isComplete :: "app \<Rightarrow> bool" where
  "isComplete s = (activeIndex s \<ge> length (cats s))"

text \<open>\<^verbatim>\<open>window.clearTimeout(h)\<close>; \<^verbatim>\<open>clearTimeout(undefined)\<close> does nothing.\<close>

definition clearTimeout :: "nat option \<Rightarrow> app \<Rightarrow> app" where
  "clearTimeout h s =
     (case h of
        None \<Rightarrow> s
      | Some t \<Rightarrow> s\<lparr>timers := filter (\<lambda>e. fst e \<noteq> t) (timers s)\<rparr>)"

text \<open>\<^verbatim>\<open>window.setTimeout(callback, SWIPE_ANIMATION_MS)\<close>, the callback given by the two
  variables its closure holds.\<close>

definition setTimeout :: "direction \<Rightarrow> CatCard \<Rightarrow> app \<Rightarrow> nat \<times> app" where
  "setTimeout direction chosenCat s =
     (nextTimer s,
      s\<lparr>timers := timers s @ [(nextTimer s, direction, chosenCat)],
        nextTimer := Suc (nextTimer s)\<rparr>)"

definition handleChoice :: "direction \<Rightarrow> app \<Rightarrow> app" where
  "handleChoice direction s =
     (case currentCat s of
        None \<Rightarrow> s
      | Some chosenCat \<Rightarrow>
          if isAnimating s \<or> \<not> isDeckReady s then s
          else
            let s1 = s\<lparr>swipeDirection := Some direction, isAnimating := True\<rparr>;
                s2 = clearTimeout (timeoutRef s1) s1;
                (t, s3) = setTimeout direction chosenCat s2
            in s3\<lparr>timeoutRef := Some t\<rparr>)"

text \<open>The body of the callback given to \<^verbatim>\<open>setTimeout\<close> (lines 62 to 69).\<close>

definition timeoutCallback :: "direction \<Rightarrow> CatCard \<Rightarrow> app \<Rightarrow> app" where
  "timeoutCallback direction chosenCat s =
     (let s1 = s\<lparr>activeIndex := activeIndex s + 1\<rparr>;
          s2 = (if direction = Right then s1\<lparr>liked := liked s1 @ [chosenCat]\<rparr> else s1)
      in s2\<lparr>swipeDirection := None, dragX := 0, isAnimating := False,
            timeoutRef := None\<rparr>)"

text \<open>The delay of timeout \<open>t\<close> has passed: the browser drops it from its table and
  runs its callback. A timeout that is not pending does not fire.\<close>

definition timerFires :: "nat \<Rightarrow> app \<Rightarrow> app" where
  "timerFires t s =
     (case find (\<lambda>e. fst e = t) (timers s) of
        None \<Rightarrow> s
      | Some (_, direction, chosenCat) \<Rightarrow>
          timeoutCallback direction chosenCat
            (s\<lparr>timers := filter (\<lambda>e. fst e \<noteq> t) (timers s)\<rparr>))"

definition resetDeck :: "string \<Rightarrow> app \<Rightarrow> app" where
  "resetDeck deckId s =
     (let s1 = clearTimeout (timeoutRef s) s;
          s2 = releasePool s1
      in s2\<lparr>cats := generateDeck deckId TOTAL_CATS, activeIndex := 0, liked := [],
            swipeDirection := None, dragX := 0, isAnimating := False,
            isDeckReady := False, readyCount := 0, timeoutRef := None\<rparr>)"

text \<open>The gesture handlers given to \<^verbatim>\<open>useSwipeable\<close>; \<open>dirLeft\<close> is
  \<^verbatim>\<open>dir === 'Left'\<close>.\<close>

definition onSwiping :: "int \<Rightarrow> bool \<Rightarrow> app \<Rightarrow> app" where
  "onSwiping deltaX dirLeft s =
     (if currentCat s = None \<or> isAnimating s then s
      else s\<lparr>dragX := (if dirLeft then - \<bar>deltaX\<bar> else \<bar>deltaX\<bar>)\<rparr>)"

definition onSwiped :: "app \<Rightarrow> app" where
  "onSwiped s = (if swipeDirection s = None then s\<lparr>dragX := 0\<rparr> else s)"

text \<open>Which of the three views the component renders (lines 208 and 213).\<close>

datatype view = Loading | Browsing | Summary

definition viewState :: "app \<Rightarrow> view" where
  "viewState s =
     (if \<not> isDeckReady s then Loading
      else if \<not> isComplete s then Browsing
      else Summary)"

text \<open>The \<^verbatim>\<open>disabled\<close> attribute of the two buttons (lines 275 and 283).\<close>

definition controlsDisabled :: "app \<Rightarrow> bool" where
  "controlsDisabled s = (currentCat s = None \<or> isAnimating s \<or> \<not> isDeckReady s)"

subsection \<open>The prefetch effect\<close>

text \<open>
  One call of \<^verbatim>\<open>async (cat) => ...\<close> up to its first \<^verbatim>\<open>await\<close> (lines 104 to 114): either
  it returns at once, its promise fulfilled, or it enters the URL in the in-flight set
  and is suspended in \<^verbatim>\<open>fetch\<close>.
\<close>

definition startJob :: "bool \<Rightarrow> CatCard \<Rightarrow> app \<Rightarrow> promise \<times> app" where
  "startJob isCancelled cat s =
     (if url cat = [] \<or> Map_has (imagePool s) (url cat)
      then (Fulfilled, if \<not> isCancelled then s\<lparr>readyCount := readyCount s + 1\<rparr> else s)
      else (Pending, s\<lparr>inFlight := insert (url cat) (inFlight s)\<rparr>))"

text \<open>\<^verbatim>\<open>cats.map(async (cat) => ...)\<close>: the calls run one after the other, each up to
  its first \<^verbatim>\<open>await\<close>.\<close>

fun startJobs :: "bool \<Rightarrow> CatCard list \<Rightarrow> app \<Rightarrow> (string \<times> promise) list \<times> app" where
  "startJobs isCancelled [] s = ([], s)"
| "startJobs isCancelled (cat # rest) s =
     (let (p, s1) = startJob isCancelled cat s;
          (js, s2) = startJobs isCancelled rest s1
      in ((url cat, p) # js, s2))"

text \<open>
  The rest of a suspended job, run when the network has delivered \<open>outcome\<close>: the
  \<^verbatim>\<open>try\<close> block, the \<^verbatim>\<open>catch\<close> block and the \<^verbatim>\<open>finally\<close> block (lines 113 to 132). A
  block yields what it throws, if anything, and the state it leaves.
\<close>

definition tryBlock :: "bool \<Rightarrow> string \<Rightarrow> fetch_outcome \<Rightarrow> app \<Rightarrow> error option \<times> app" where
  "tryBlock isCancelled u outcome s =
     (case outcome of
        NetworkError \<Rightarrow> (Some FetchRejected, s)
      | BadStatus \<Rightarrow> (Some FailedToFetchCatImage, s)
      | BlobFailure \<Rightarrow> (Some BlobRejected, s)
      | Fetched handle \<Rightarrow>
          (None,
           if \<not> isCancelled
           then let (objectUrl, s1) = createObjectURL handle s
                in s1\<lparr>imagePool := AList.update u objectUrl (imagePool s1),
                      version := version s1 + 1\<rparr>
           else s))"

definition catchBlock :: "bool \<Rightarrow> string \<Rightarrow> error option \<times> app \<Rightarrow> error option \<times> app" where
  "catchBlock isCancelled u r =
     (case r of
        (None, s) \<Rightarrow> (None, s)
      | (Some e, s) \<Rightarrow>
          (None,
           if \<not> isCancelled
           then s\<lparr>imagePool := AList.update u u (imagePool s), version := version s + 1\<rparr>
           else s))"

definition finallyBlock :: "bool \<Rightarrow> string \<Rightarrow> error option \<times> app \<Rightarrow> error option \<times> app" where
  "finallyBlock isCancelled u r =
     (case r of
        (thrown, s) \<Rightarrow>
          (let s1 = s\<lparr>inFlight := inFlight s - {u}\<rparr>
           in (thrown, if \<not> isCancelled then s1\<lparr>readyCount := readyCount s1 + 1\<rparr> else s1)))"

definition resumeJob :: "bool \<Rightarrow> string \<Rightarrow> fetch_outcome \<Rightarrow> app \<Rightarrow> promise \<times> app" where
  "resumeJob isCancelled u outcome s =
     (case finallyBlock isCancelled u
             (catchBlock isCancelled u (tryBlock isCancelled u outcome s)) of
        (None, s') \<Rightarrow> (Fulfilled, s')
      | (Some e, s') \<Rightarrow> (Rejected e, s'))"

text \<open>
  Job \<open>j\<close> of pass \<open>p\<close> settles with \<open>outcome\<close>. The job reads the \<^verbatim>\<open>cancelled\<close> variable
  of its own pass. A job that is not suspended has nothing left to run.
\<close>

definition settle :: "nat \<Rightarrow> nat \<Rightarrow> fetch_outcome \<Rightarrow> app \<Rightarrow> app" where
  "settle p j outcome s =
     (if p < length (passes s) \<and> j < length (fetchJobs (passes s ! p))
         \<and> snd (fetchJobs (passes s ! p) ! j) = Pending
      then
        let pass = passes s ! p;
            u = fst (fetchJobs pass ! j);
            (result, s1) = resumeJob (cancelled pass) u outcome s
        in s1\<lparr>passes := (passes s1)[p := pass\<lparr>fetchJobs := (fetchJobs pass)[j := (u, result)]\<rparr>]\<rparr>
      else s)"

text \<open>
  \<^verbatim>\<open>loadDeck\<close> of pass \<open>p\<close> resumes after \<^verbatim>\<open>await Promise.all(fetchJobs)\<close> (lines 135 to
  138): with a rejected job the \<^verbatim>\<open>await\<close> throws and \<^verbatim>\<open>loadDeck\<close> ends there; with every
  job fulfilled the deck is marked ready unless the pass was cancelled.
\<close>

definition loadDeckResumes :: "nat \<Rightarrow> app \<Rightarrow> app" where
  "loadDeckResumes p s =
     (if p < length (passes s) \<and> awaitingAll (passes s ! p)
      then
        let pass = passes s ! p;
            s1 = s\<lparr>passes := (passes s)[p := pass\<lparr>awaitingAll := False\<rparr>]\<rparr>
        in if list_ex (\<lambda>job. isRejected (snd job)) (fetchJobs pass)
           then s1
           else if list_all (\<lambda>job. snd job = Fulfilled) (fetchJobs pass)
           then (if \<not> cancelled pass then s1\<lparr>isDeckReady := True\<rparr> else s1)
           else s
      else s)"

text \<open>
  The body of the effect on \<^verbatim>\<open>[cats]\<close> (lines 96 to 145): a new \<^verbatim>\<open>cancelled\<close> variable,
  the two counters reset, and \<^verbatim>\<open>loadDeck\<close> run up to its \<^verbatim>\<open>await\<close> for a deck that is not
  empty.
\<close>

definition prefetchEffect :: "app \<Rightarrow> app" where
  "prefetchEffect s =
     (let isCancelled = False;
          s1 = s\<lparr>isDeckReady := False, readyCount := 0\<rparr>
      in if length (cats s1) > 0
         then
           let (jobs, s2) = startJobs isCancelled (cats s1) s1
           in s2\<lparr>passes := passes s2 @
                  [\<lparr>cancelled = isCancelled, fetchJobs = jobs, awaitingAll = True\<rparr>]\<rparr>
         else
           s1\<lparr>isDeckReady := True,
              passes := passes s1 @
                  [\<lparr>cancelled = isCancelled, fetchJobs = [], awaitingAll = False\<rparr>]\<rparr>)"

text \<open>The cleanup of that effect (lines 147 to 149), which belongs to the latest pass.\<close>

definition prefetchCleanup :: "app \<Rightarrow> app" where
  "prefetchCleanup s =
     (if passes s = [] then s
      else s\<lparr>passes := (passes s)[length (passes s) - 1 :=
                (last (passes s))\<lparr>cancelled := True\<rparr>]\<rparr>)"

text \<open>The effect on \<^verbatim>\<open>[readyCount, cats.length, isDeckReady]\<close> (lines 152 to 157).\<close>

definition thresholdEffect :: "app \<Rightarrow> app" where
  "thresholdEffect s =
     (let threshold = min INITIAL_READY_COUNT (length (cats s))
      in if \<not> isDeckReady s \<and> threshold > 0 \<and> readyCount s \<ge> threshold
         then s\<lparr>isDeckReady := True\<rparr>
         else s)"

text \<open>The cleanup of the effect on \<^verbatim>\<open>[]\<close> (lines 88 to 92), run when the component
  unmounts.\<close>

definition unmountCleanup :: "app \<Rightarrow> app" where
  "unmountCleanup s = releasePool ((clearTimeout (timeoutRef s) s)\<lparr>timeoutRef := None\<rparr>)"

subsection \<open>The component as a transition system\<close>

text \<open>
  The \<^verbatim>\<open>useState\<close> and \<^verbatim>\<open>useRef\<close> initialisers (lines 27 to 38) for a first deck
  \<open>firstDeck\<close>, and the browser's tables empty.
\<close>

definition initialState :: "CatCard list \<Rightarrow> app" where
  "initialState firstDeck =
     \<lparr> cats = firstDeck, activeIndex = 0, liked = [], swipeDirection = None, dragX = 0,
       isAnimating = False, isDeckReady = False, readyCount = 0, timeoutRef = None,
       imagePool = [], inFlight = {}, version = 0,
       timers = [], nextTimer = 1, objectUrls = {}, passes = [] \<rparr>"

text \<open>
  Mounting runs the effects in the order they are declared. The threshold effect is
  run after every handler and callback: React runs it after each render in which one
  of \<^verbatim>\<open>readyCount\<close>, \<^verbatim>\<open>cats.length\<close>, \<^verbatim>\<open>isDeckReady\<close> changed, and where none changed
  it does again what it did the last time, which is nothing.
\<close>

definition mount :: "CatCard list \<Rightarrow> app" where
  "mount firstDeck = thresholdEffect (prefetchEffect (initialState firstDeck))"

text \<open>The component as \<^verbatim>\<open>App\<close> creates it: the first deck is
  \<^verbatim>\<open>generateDeck(TOTAL_CATS)\<close>.\<close>

definition App :: "string \<Rightarrow> app" where
  "App deckId = mount (generateDeck deckId TOTAL_CATS)"

text \<open>
  What can happen to a mounted component: a classification (button or swipe), a timeout
  that fires, a click on the reset button (with the deck identifier that
  \<^verbatim>\<open>generateDeck\<close> draws), a fetch job that settles, \<^verbatim>\<open>loadDeck\<close> resuming after
  \<^verbatim>\<open>Promise.all\<close>, and the two drag gestures. JavaScript runs each handler and each
  continuation of an \<^verbatim>\<open>async\<close> function to its end, one at a time, so each is one
  step. The render that follows it and the effects of that render are taken as part of
  the step: React renders at once after a click, and the continuations and timeout
  callbacks that may run before the render that follows one of them write only the refs
  and queue updater functions, which do not read what a render produces. A reset
  installs a new \<^verbatim>\<open>cats\<close> array, so the render that follows it runs the cleanup of
  the prefetch effect and then the effect again. In \<open>Settle p j outcome\<close> the two \<^verbatim>\<open>await\<close>s of a job are one event: the job
  touches no cell between them, and reads \<^verbatim>\<open>cancelled\<close> only after the last one.
\<close>

datatype event =
    Choice direction
  | TimerFires nat
  | Reset string
  | Settle nat nat fetch_outcome
  | LoadDeckResumes nat
  | Swiping int bool
  | Swiped

definition step :: "event \<Rightarrow> app \<Rightarrow> app" where
  "step e s =
     thresholdEffect
       (case e of
          Choice direction \<Rightarrow> handleChoice direction s
        | TimerFires t \<Rightarrow> timerFires t s
        | Reset deckId \<Rightarrow> prefetchEffect (prefetchCleanup (resetDeck deckId s))
        | Settle p j outcome \<Rightarrow> settle p j outcome s
        | LoadDeckResumes p \<Rightarrow> loadDeckResumes p s
        | Swiping deltaX dirLeft \<Rightarrow> onSwiping deltaX dirLeft s
        | Swiped \<Rightarrow> onSwiped s)"

fun run :: "event list \<Rightarrow> app \<Rightarrow> app" where
  "run [] s = s"
| "run (e # es) s = run es (step e s)"

subsection \<open>Notions used to state the properties\<close>

text \<open>What a job that is not cancelled stores under its URL for each outcome, and the
  object URLs that are live after it.\<close>

fun cacheValue :: "string \<Rightarrow> fetch_outcome \<Rightarrow> string" where
  "cacheValue u (Fetched h) = ''blob:'' @ h"
| "cacheValue u NetworkError = u"
| "cacheValue u BadStatus = u"
| "cacheValue u BlobFailure = u"

fun registered :: "fetch_outcome \<Rightarrow> string set \<Rightarrow> string set" where
  "registered (Fetched h) X = insert (''blob:'' @ h) X"
| "registered NetworkError X = X"
| "registered BadStatus X = X"
| "registered BlobFailure X = X"

text \<open>The number of jobs of a pass that have settled.\<close>

definition settled :: "(string \<times> promise) list \<Rightarrow> nat" where
  "settled jobs = length (filter (\<lambda>job. snd job = Fulfilled) jobs)"

text \<open>The promise and URL of the job that \<^const>\<open>startJob\<close> leaves for a card when the
  pool is \<open>pool\<close>.\<close>

definition jobOf :: "(string \<times> string) list \<Rightarrow> CatCard \<Rightarrow> string \<times> promise" where
  "jobOf pool cat =
     (url cat, if url cat = [] \<or> Map_has pool (url cat) then Fulfilled else Pending)"

text \<open>
  The passes of a mounted component: only the latest pass is not cancelled, its jobs
  are those of the installed deck, \<open>readyCount\<close> counts its settled jobs, and no job of
  any pass is rejected.
\<close>

definition passInv :: "app \<Rightarrow> bool" where
  "passInv s =
     (passes s \<noteq> []
      \<and> (\<forall>p < length (passes s). cancelled (passes s ! p) = (Suc p < length (passes s)))
      \<and> map fst (fetchJobs (last (passes s))) = map url (cats s)
      \<and> readyCount s = settled (fetchJobs (last (passes s)))
      \<and> (\<forall>pass \<in> set (passes s). \<forall>job \<in> set (fetchJobs pass). \<not> isRejected (snd job)))"

text \<open>The deck is ready exactly from the early threshold on; an empty deck is ready.\<close>

definition readyInv :: "app \<Rightarrow> bool" where
  "readyInv s =
     (if cats s = [] then isDeckReady s
      else isDeckReady s = (min INITIAL_READY_COUNT (length (cats s)) \<le> readyCount s))"

text \<open>
  At most one timeout is pending, it is the one \<open>timeoutRef\<close> holds, and it belongs to
  the classification of the current card of a ready deck; until the deck is ready
  nothing has been classified.
\<close>

definition timerInv :: "app \<Rightarrow> bool" where
  "timerInv s =
     ((case timeoutRef s of
         None \<Rightarrow> timers s = [] \<and> \<not> isAnimating s \<and> swipeDirection s = None
       | Some t \<Rightarrow>
           isAnimating s \<and> isDeckReady s \<and> activeIndex s < length (cats s)
           \<and> (case swipeDirection s of
                 None \<Rightarrow> False
               | Some d \<Rightarrow> timers s = [(t, d, cats s ! activeIndex s)]))
      \<and> (isDeckReady s \<or> (activeIndex s = 0 \<and> liked s = [])))"

text \<open>Every job of the latest pass that has settled and had a URL to fetch has an entry
  in the pool.\<close>

definition poolInv :: "app \<Rightarrow> bool" where
  "poolInv s =
     (\<forall>job \<in> set (fetchJobs (last (passes s))).
        snd job = Fulfilled \<and> fst job \<noteq> [] \<longrightarrow> fst job \<in> fst ` set (imagePool s))"

text \<open>An outcome after which the job falls back to the remote URL, an event that is not
  a successful fetch, and a click on the reset button.\<close>

fun isFailure :: "fetch_outcome \<Rightarrow> bool" where
  "isFailure (Fetched h) = False"
| "isFailure NetworkError = True"
| "isFailure BadStatus = True"
| "isFailure BlobFailure = True"

fun failing :: "event \<Rightarrow> bool" where
  "failing (Settle p j outcome) = isFailure outcome"
| "failing e = True"

fun isReset :: "event \<Rightarrow> bool" where
  "isReset (Reset deckId) = True"
| "isReset e = False"

text \<open>The invariant of a mounted component.\<close>

definition appInv :: "app \<Rightarrow> bool" where
  "appInv s = (passInv s \<and> readyInv s \<and> timerInv s \<and> poolInv s)"

text \<open>No card URL and no key of the pool starts with \<^verbatim>\<open>blob:\<close>, and a stored value is
  either its own key (a fallback) or a \<^verbatim>\<open>blob:\<close> URL.\<close>

definition remoteInv :: "app \<Rightarrow> bool" where
  "remoteInv s =
     ((\<forall>c \<in> set (cats s). \<not> startsWith (url c) ''blob:'')
      \<and> (\<forall>e \<in> set (imagePool s).
            \<not> startsWith (fst e) ''blob:'' \<and> (snd e = fst e \<or> startsWith (snd e) ''blob:'')))"

text \<open>Every stored value is its own key.\<close>

definition fallbackInv :: "app \<Rightarrow> bool" where
  "fallbackInv s = (\<forall>e \<in> set (imagePool s). snd e = fst e)"


text \<open>The pool has one entry per URL, and the in-flight set holds only URLs of pending
  jobs of the latest pass.\<close>

definition keysInv :: "app \<Rightarrow> bool" where
  "keysInv s = distinct (map fst (imagePool s))"

definition flightInv :: "app \<Rightarrow> bool" where
  "flightInv s =
     (inFlight s \<subseteq> fst ` {job \<in> set (fetchJobs (last (passes s))). snd job = Pending})"


subsection \<open>Concrete decks and runs\<close>

text \<open>A deck of three cards, and a run in which the fetches of all three fail.\<close>

definition deck3 :: "CatCard list" where
  "deck3 = generateDeck ''deck'' 3"

definition allFail3 :: "event list" where
  "allFail3 = [Settle 0 2 BadStatus, Settle 0 0 NetworkError, Settle 0 1 BlobFailure]"


text \<open>The three-card component after a reset, with the first fetch of the new pass
  failed.\<close>

definition afterReset :: app where
  "afterReset = run [Settle 1 0 BadStatus] (step (Reset ''next'') (run [] (mount deck3)))"



definition pending3 :: app where
  "pending3 = run (allFail3 @ [Choice Right]) (mount deck3)"

definition summary3 :: app where
  "summary3 = run (allFail3 @ [Choice Right, TimerFires 1, Choice Left, TimerFires 2,
                                Choice Right, TimerFires 3]) (mount deck3)"

text \<open>The component as \<^verbatim>\<open>App\<close> creates it, with one image fetched and one fetch
  failed.\<close>

definition mixedPool :: app where
  "mixedPool = run [Settle 0 0 (Fetched ''x''), Settle 0 1 BadStatus] (App ''d'')"


subsection \<open>Auxiliary facts\<close>

lemma resumeJob_eq:
  "resumeJob c u oc s =
     (Fulfilled,
      if c then s\<lparr>inFlight := inFlight s - {u}\<rparr>
      else s\<lparr>objectUrls := registered oc (objectUrls s),
             imagePool := AList.update u (cacheValue u oc) (imagePool s),
             version := version s + 1,
             inFlight := inFlight s - {u},
             readyCount := readyCount s + 1\<rparr>)"
  by (cases oc) (simp_all add: resumeJob_def finallyBlock_def catchBlock_def tryBlock_def createObjectURL_def)

lemma thresholdEffect_frame [simp]:
  "cats (thresholdEffect s) = cats s" "activeIndex (thresholdEffect s) = activeIndex s"
  "liked (thresholdEffect s) = liked s" "swipeDirection (thresholdEffect s) = swipeDirection s"
  "dragX (thresholdEffect s) = dragX s" "isAnimating (thresholdEffect s) = isAnimating s"
  "readyCount (thresholdEffect s) = readyCount s" "timeoutRef (thresholdEffect s) = timeoutRef s"
  "imagePool (thresholdEffect s) = imagePool s" "inFlight (thresholdEffect s) = inFlight s"
  "version (thresholdEffect s) = version s" "timers (thresholdEffect s) = timers s"
  "nextTimer (thresholdEffect s) = nextTimer s" "objectUrls (thresholdEffect s) = objectUrls s"
  "passes (thresholdEffect s) = passes s"
  by (simp_all add: thresholdEffect_def Let_def)

lemma thresholdEffect_ready:
  "isDeckReady (thresholdEffect s) =
     (isDeckReady s \<or> (cats s \<noteq> [] \<and> min 3 (length (cats s)) \<le> readyCount s))"
  by (auto simp add: thresholdEffect_def Let_def INITIAL_READY_COUNT_def)

lemma passInv_cong:
  "passes s' = passes s \<Longrightarrow> cats s' = cats s \<Longrightarrow> readyCount s' = readyCount s \<Longrightarrow>
   passInv s' = passInv s"
  by (simp add: passInv_def)

lemma handleChoice_frame [simp]:
  "cats (handleChoice d s) = cats s" "activeIndex (handleChoice d s) = activeIndex s"
  "liked (handleChoice d s) = liked s" "isDeckReady (handleChoice d s) = isDeckReady s"
  "readyCount (handleChoice d s) = readyCount s"
  "imagePool (handleChoice d s) = imagePool s" "inFlight (handleChoice d s) = inFlight s"
  "version (handleChoice d s) = version s" "objectUrls (handleChoice d s) = objectUrls s"
  "passes (handleChoice d s) = passes s"
  by (simp_all add: handleChoice_def clearTimeout_def setTimeout_def Let_def split: option.splits)

lemma timerFires_frame [simp]:
  "cats (timerFires t s) = cats s" "isDeckReady (timerFires t s) = isDeckReady s"
  "readyCount (timerFires t s) = readyCount s"
  "imagePool (timerFires t s) = imagePool s" "inFlight (timerFires t s) = inFlight s"
  "version (timerFires t s) = version s" "objectUrls (timerFires t s) = objectUrls s"
  "passes (timerFires t s) = passes s" "nextTimer (timerFires t s) = nextTimer s"
  by (simp_all add: timerFires_def timeoutCallback_def Let_def split: option.splits prod.splits)

lemma onSwiping_frame [simp]:
  "cats (onSwiping x l s) = cats s" "activeIndex (onSwiping x l s) = activeIndex s"
  "liked (onSwiping x l s) = liked s" "swipeDirection (onSwiping x l s) = swipeDirection s"
  "isAnimating (onSwiping x l s) = isAnimating s" "isDeckReady (onSwiping x l s) = isDeckReady s"
  "readyCount (onSwiping x l s) = readyCount s" "timeoutRef (onSwiping x l s) = timeoutRef s"
  "imagePool (onSwiping x l s) = imagePool s" "inFlight (onSwiping x l s) = inFlight s"
  "version (onSwiping x l s) = version s" "timers (onSwiping x l s) = timers s"
  "nextTimer (onSwiping x l s) = nextTimer s" "objectUrls (onSwiping x l s) = objectUrls s"
  "passes (onSwiping x l s) = passes s"
  by (simp_all add: onSwiping_def)

lemma onSwiped_frame [simp]:
  "cats (onSwiped s) = cats s" "activeIndex (onSwiped s) = activeIndex s"
  "liked (onSwiped s) = liked s" "swipeDirection (onSwiped s) = swipeDirection s"
  "isAnimating (onSwiped s) = isAnimating s" "isDeckReady (onSwiped s) = isDeckReady s"
  "readyCount (onSwiped s) = readyCount s" "timeoutRef (onSwiped s) = timeoutRef s"
  "imagePool (onSwiped s) = imagePool s" "inFlight (onSwiped s) = inFlight s"
  "version (onSwiped s) = version s" "timers (onSwiped s) = timers s"
  "nextTimer (onSwiped s) = nextTimer s" "objectUrls (onSwiped s) = objectUrls s"
  "passes (onSwiped s) = passes s"
  by (simp_all add: onSwiped_def)

lemma settled_update:
  "j < length jobs \<Longrightarrow> snd (jobs ! j) = Pending \<Longrightarrow>
   settled (jobs[j := (u, Fulfilled)]) = Suc (settled jobs)"
proof (induction jobs arbitrary: j)
  case Nil then show ?case by simp
next
  case (Cons a jobs)
  then show ?case by (cases j) (auto simp: settled_def)
qed

lemma settled_le: "settled jobs \<le> length jobs"
  by (simp add: settled_def)

lemma settle_disabled:
  "\<not> (p < length (passes s) \<and> j < length (fetchJobs (passes s ! p))
         \<and> snd (fetchJobs (passes s ! p) ! j) = Pending) \<Longrightarrow> settle p j oc s = s"
  by (auto simp add: settle_def)

lemma settle_cancelled:
  "p < length (passes s) \<Longrightarrow> j < length (fetchJobs (passes s ! p)) \<Longrightarrow>
   snd (fetchJobs (passes s ! p) ! j) = Pending \<Longrightarrow> cancelled (passes s ! p) \<Longrightarrow>
   settle p j oc s =
     s\<lparr>inFlight := inFlight s - {fst (fetchJobs (passes s ! p) ! j)},
       passes := (passes s)[p := (passes s ! p)\<lparr>fetchJobs :=
          (fetchJobs (passes s ! p))[j := (fst (fetchJobs (passes s ! p) ! j), Fulfilled)]\<rparr>]\<rparr>"
  by (simp add: settle_def resumeJob_eq Let_def)

lemma settle_live:
  "p < length (passes s) \<Longrightarrow> j < length (fetchJobs (passes s ! p)) \<Longrightarrow>
   snd (fetchJobs (passes s ! p) ! j) = Pending \<Longrightarrow> \<not> cancelled (passes s ! p) \<Longrightarrow>
   settle p j oc s =
     s\<lparr>objectUrls := registered oc (objectUrls s),
       imagePool := AList.update (fst (fetchJobs (passes s ! p) ! j))
          (cacheValue (fst (fetchJobs (passes s ! p) ! j)) oc) (imagePool s),
       version := version s + 1,
       inFlight := inFlight s - {fst (fetchJobs (passes s ! p) ! j)},
       readyCount := readyCount s + 1,
       passes := (passes s)[p := (passes s ! p)\<lparr>fetchJobs :=
          (fetchJobs (passes s ! p))[j := (fst (fetchJobs (passes s ! p) ! j), Fulfilled)]\<rparr>]\<rparr>"
  by (simp add: settle_def resumeJob_eq Let_def)

lemma passInv_settle: "passInv s \<Longrightarrow> passInv (settle p j oc s)"
proof (cases "p < length (passes s) \<and> j < length (fetchJobs (passes s ! p))
         \<and> snd (fetchJobs (passes s ! p) ! j) = Pending")
  case False
  assume "passInv s"
  with False show ?thesis by (simp add: settle_disabled)
next
  case en: True
  assume inv: "passInv s"
  let ?n = "length (passes s)"
  let ?pass = "passes s ! p"
  let ?u = "fst (fetchJobs ?pass ! j)"
  let ?pass' = "?pass\<lparr>fetchJobs := (fetchJobs ?pass)[j := (?u, Fulfilled)]\<rparr>"
  let ?ps' = "(passes s)[p := ?pass']"
  have ne: "?ps' \<noteq> []" using inv by (simp add: passInv_def)
  have canc: "\<forall>q < length ?ps'. cancelled (?ps' ! q) = (Suc q < length ?ps')"
    using inv en by (simp add: passInv_def nth_list_update)
  have rej: "\<forall>pass \<in> set ?ps'. \<forall>job \<in> set (fetchJobs pass). \<not> isRejected (snd job)"
  proof (intro ballI)
    fix pass job assume a: "pass \<in> set ?ps'" "job \<in> set (fetchJobs pass)"
    from a(1) have "pass = ?pass' \<or> pass \<in> set (passes s)"
      using set_update_subset_insert by fastforce
    then show "\<not> isRejected (snd job)"
    proof
      assume "pass = ?pass'"
      with a(2) have "job \<in> insert (?u, Fulfilled) (set (fetchJobs ?pass))"
        using set_update_subset_insert by fastforce
      moreover have "?pass \<in> set (passes s)" using en by simp
      ultimately show ?thesis using inv by (auto simp: passInv_def)
    next
      assume "pass \<in> set (passes s)"
      with a(2) show ?thesis using inv by (auto simp: passInv_def)
    qed
  qed
  have fsts: "map fst (fetchJobs ?pass') = map fst (fetchJobs ?pass)"
    using en by (simp add: map_update list_update_same_conv)
  show ?thesis
  proof (cases "cancelled ?pass")
    case True
    then have notlast: "Suc p < ?n" using inv en by (simp add: passInv_def)
    have eq: "settle p j oc s = s\<lparr>inFlight := inFlight s - {?u}, passes := ?ps'\<rparr>"
      using en True by (simp add: settle_cancelled)
    have lastp: "last ?ps' = last (passes s)"
      using notlast inv by (simp add: last_list_update passInv_def)
    show ?thesis unfolding eq passInv_def using inv ne canc rej lastp
      by (simp add: passInv_def)
  next
    case False
    then have islast: "p = ?n - 1" using inv en by (auto simp add: passInv_def)
    have lastp: "last (passes s) = ?pass"
      using inv islast by (simp add: last_conv_nth passInv_def)
    have lastp': "last ?ps' = ?pass'"
      using inv islast by (simp add: last_list_update passInv_def)
    have eq: "settle p j oc s = s\<lparr>objectUrls := registered oc (objectUrls s),
       imagePool := AList.update ?u (cacheValue ?u oc) (imagePool s),
       version := version s + 1,
       inFlight := inFlight s - {?u},
       readyCount := readyCount s + 1, passes := ?ps'\<rparr>"
      using en False by (simp add: settle_live)
    have cnt: "readyCount s + 1 = settled (fetchJobs ?pass')"
      using inv en lastp by (simp add: passInv_def settled_update)
    have urls: "map fst (fetchJobs ?pass') = map url (cats s)"
      using inv lastp fsts by (simp add: passInv_def)
    show ?thesis unfolding eq passInv_def using ne canc rej lastp' cnt urls
      by simp
  qed
qed

lemma settled_Cons: "settled (job # jobs) = (if snd job = Fulfilled then 1 else 0) + settled jobs"
  by (simp add: settled_def)

lemma jobOf_simps [simp]:
  "fst (jobOf pool c) = url c" "\<not> isRejected (snd (jobOf pool c))"
  "(snd (jobOf pool c) = Fulfilled) = (url c = [] \<or> Map_has pool (url c))"
  "(snd (jobOf pool c) = Pending) = (\<not> (url c = [] \<or> Map_has pool (url c)))"
  by (simp_all add: jobOf_def)

lemma pending_Cons:
  "{u. (u, Pending) \<in> set (map (jobOf pool) (c # cs))} =
      (if url c = [] \<or> Map_has pool (url c) then {} else {url c})
        \<union> {u. (u, Pending) \<in> set (map (jobOf pool) cs)}"
  by (auto simp add: jobOf_def)

lemma startJobs_eq:
  "startJobs False cs s =
     (map (jobOf (imagePool s)) cs,
      s\<lparr>readyCount := readyCount s + settled (map (jobOf (imagePool s)) cs),
        inFlight := inFlight s \<union> {u. (u, Pending) \<in> set (map (jobOf (imagePool s)) cs)}\<rparr>)"
proof (induction cs arbitrary: s)
  case Nil
  then show ?case by (simp add: settled_def)
next
  case (Cons c cs)
  show ?case
  proof (cases "url c = [] \<or> Map_has (imagePool s) (url c)")
    case True
    then have j: "jobOf (imagePool s) c = (url c, Fulfilled)" by (simp add: jobOf_def)
    from True have st: "startJob False c s = (Fulfilled, s\<lparr>readyCount := readyCount s + 1\<rparr>)"
      by (simp add: startJob_def)
    show ?thesis
      unfolding pending_Cons using True
      by (simp add: st Cons j settled_Cons del: set_map)
  next
    case False
    then have j: "jobOf (imagePool s) c = (url c, Pending)" by (simp add: jobOf_def)
    from False have st: "startJob False c s = (Pending, s\<lparr>inFlight := insert (url c) (inFlight s)\<rparr>)"
      by (simp add: startJob_def)
    show ?thesis
      unfolding pending_Cons using False
      by (simp add: st Cons j settled_Cons del: set_map)
  qed
qed

lemma prefetchEffect_eq:
  "prefetchEffect s =
     s\<lparr>isDeckReady := (cats s = []),
       readyCount := settled (map (jobOf (imagePool s)) (cats s)),
       inFlight := inFlight s \<union> {u. (u, Pending) \<in> set (map (jobOf (imagePool s)) (cats s))},
       passes := passes s @ [\<lparr>cancelled = False,
                              fetchJobs = map (jobOf (imagePool s)) (cats s),
                              awaitingAll = (cats s \<noteq> [])\<rparr>]\<rparr>"
  by (simp add: prefetchEffect_def startJobs_eq Let_def settled_def)

lemma passInv_prefetchEffect:
  assumes "\<forall>p < length (passes s). cancelled (passes s ! p)"
    and "\<forall>pass \<in> set (passes s). \<forall>job \<in> set (fetchJobs pass). \<not> isRejected (snd job)"
  shows "passInv (prefetchEffect s)"
  unfolding prefetchEffect_eq passInv_def using assms
  by (auto simp add: nth_append)

lemma passInv_thresholdEffect [simp]: "passInv (thresholdEffect s) = passInv s"
  by (rule passInv_cong) simp_all

lemma passInv_mount: "passInv (mount firstDeck)"
proof -
  have "passInv (prefetchEffect (initialState firstDeck))"
    by (rule passInv_prefetchEffect) (simp_all add: initialState_def)
  then show ?thesis by (simp add: mount_def)
qed

lemma fold_releaseEntry:
  "fold releaseEntry vs s =
     s\<lparr>objectUrls := objectUrls s - {v \<in> set vs. startsWith v ''blob:''}\<rparr>"
proof (induction vs arbitrary: s)
  case Nil
  show ?case by simp
next
  case (Cons v vs)
  show ?case
  proof (cases "startsWith v ''blob:''")
    case True
    then have "objectUrls s - {v} - {w \<in> set vs. startsWith w ''blob:''}
      = objectUrls s - {w \<in> set (v # vs). startsWith w ''blob:''}"
      by auto
    moreover from True have "releaseEntry v s = s\<lparr>objectUrls := objectUrls s - {v}\<rparr>"
      by (simp add: releaseEntry_def revokeObjectURL_def)
    ultimately show ?thesis
      by (simp add: Cons del: set_simps)
  next
    case False
    then have "{w \<in> set vs. startsWith w ''blob:''}
      = {w \<in> set (v # vs). startsWith w ''blob:''}"
      by auto
    moreover from False have "releaseEntry v s = s"
      by (simp add: releaseEntry_def)
    ultimately show ?thesis
      by (simp add: Cons del: set_simps)
  qed
qed

lemma releasePool_eq:
  "releasePool s =
     s\<lparr>objectUrls := objectUrls s - {v \<in> snd ` set (imagePool s). startsWith v ''blob:''},
       imagePool := [], inFlight := {}\<rparr>"
  by (simp add: releasePool_def fold_releaseEntry)

lemma releasePool_idem: "releasePool (releasePool s) = releasePool s"
  by (simp add: releasePool_eq)

lemma releasePool_funpow: "(releasePool ^^ n) (releasePool s) = releasePool s"
  by (induction n) (simp_all add: releasePool_idem)

lemma resetDeck_eq:
  "resetDeck deckId s =
     s\<lparr>timers := (case timeoutRef s of None \<Rightarrow> timers s
                   | Some t \<Rightarrow> filter (\<lambda>e. fst e \<noteq> t) (timers s)),
       objectUrls := objectUrls s - {v \<in> snd ` set (imagePool s). startsWith v ''blob:''},
       imagePool := [], inFlight := {},
       cats := generateDeck deckId TOTAL_CATS, activeIndex := 0, liked := [],
       swipeDirection := None, dragX := 0, isAnimating := False,
       isDeckReady := False, readyCount := 0, timeoutRef := None\<rparr>"
  by (simp add: resetDeck_def clearTimeout_def releasePool_eq Let_def split: option.splits)

lemma prefetchCleanup_passes:
  "passes (prefetchCleanup s) =
     (if passes s = [] then []
      else butlast (passes s) @ [(last (passes s))\<lparr>cancelled := True\<rparr>])"
  by (cases "passes s" rule: rev_cases) (simp_all add: prefetchCleanup_def)

lemma prefetchCleanup_frame [simp]:
  "cats (prefetchCleanup s) = cats s" "activeIndex (prefetchCleanup s) = activeIndex s"
  "liked (prefetchCleanup s) = liked s" "swipeDirection (prefetchCleanup s) = swipeDirection s"
  "dragX (prefetchCleanup s) = dragX s" "isAnimating (prefetchCleanup s) = isAnimating s"
  "isDeckReady (prefetchCleanup s) = isDeckReady s"
  "readyCount (prefetchCleanup s) = readyCount s" "timeoutRef (prefetchCleanup s) = timeoutRef s"
  "imagePool (prefetchCleanup s) = imagePool s" "inFlight (prefetchCleanup s) = inFlight s"
  "version (prefetchCleanup s) = version s" "timers (prefetchCleanup s) = timers s"
  "nextTimer (prefetchCleanup s) = nextTimer s" "objectUrls (prefetchCleanup s) = objectUrls s"
  by (simp_all add: prefetchCleanup_def)

lemma generateDeck_length [simp]: "length (generateDeck deckId n) = n"
  by (simp add: generateDeck_def)

lemma generateDeck_ne [simp]: "generateDeck deckId TOTAL_CATS \<noteq> []"
  by (simp add: generateDeck_def TOTAL_CATS_def)

lemma resetDeck_passes [simp]: "passes (resetDeck d s) = passes s"
  by (simp add: resetDeck_eq)

lemma passInv_reset:
  assumes "passInv s"
  shows "passInv (prefetchEffect (prefetchCleanup (resetDeck d s)))"
proof (rule passInv_prefetchEffect)
  show "\<forall>p<length (passes (prefetchCleanup (resetDeck d s))).
       cancelled (passes (prefetchCleanup (resetDeck d s)) ! p)"
    using assms
    by (auto simp add: passInv_def prefetchCleanup_passes nth_append nth_butlast)
  show "\<forall>pass\<in>set (passes (prefetchCleanup (resetDeck d s))).
       \<forall>job\<in>set (fetchJobs pass). \<not> isRejected (snd job)"
    using assms
    by (auto simp add: passInv_def prefetchCleanup_passes dest: in_set_butlastD)
qed

lemma generateDeck_url:
  "c \<in> set (generateDeck deckId n) \<Longrightarrow> url c \<noteq> [] \<and> \<not> startsWith (url c) ''blob:''"
  by (auto simp add: generateDeck_def startsWith_def)

lemma update_set_cases:
  "e \<in> set (AList.update k v al) \<Longrightarrow> e = (k, v) \<or> e \<in> set al"
  by (induction al) (auto split: if_splits)

lemma update_keys_superset: "fst ` set al \<subseteq> fst ` set (AList.update k v al)"
  by (induction al) auto

lemma map_of_update_same: "map_of (AList.update k v al) k = Some v"
  by (simp add: update_conv')



lemma handleChoice_eq:
  "handleChoice d s =
     (if currentCat s = None \<or> isAnimating s \<or> \<not> isDeckReady s then s
      else s\<lparr>swipeDirection := Some d, isAnimating := True,
             timers := (case timeoutRef s of None \<Rightarrow> timers s
                        | Some t \<Rightarrow> filter (\<lambda>e. fst e \<noteq> t) (timers s))
                       @ [(nextTimer s, d, cats s ! activeIndex s)],
             nextTimer := Suc (nextTimer s),
             timeoutRef := Some (nextTimer s)\<rparr>)"
  by (simp add: handleChoice_def currentCat_def clearTimeout_def setTimeout_def Let_def
      split: option.splits)

lemma timerFires_eq:
  "timerFires t s =
     (case find (\<lambda>e. fst e = t) (timers s) of
        None \<Rightarrow> s
      | Some (t', d, c) \<Rightarrow>
          s\<lparr>timers := filter (\<lambda>e. fst e \<noteq> t) (timers s),
            activeIndex := activeIndex s + 1,
            liked := (if d = Right then liked s @ [c] else liked s),
            swipeDirection := None, dragX := 0, isAnimating := False,
            timeoutRef := None\<rparr>)"
  by (simp add: timerFires_def timeoutCallback_def Let_def split: option.splits prod.splits)

lemma loadDeckResumes_frame [simp]:
  "cats (loadDeckResumes p s) = cats s" "activeIndex (loadDeckResumes p s) = activeIndex s"
  "liked (loadDeckResumes p s) = liked s" "swipeDirection (loadDeckResumes p s) = swipeDirection s"
  "dragX (loadDeckResumes p s) = dragX s" "isAnimating (loadDeckResumes p s) = isAnimating s"
  "readyCount (loadDeckResumes p s) = readyCount s" "timeoutRef (loadDeckResumes p s) = timeoutRef s"
  "imagePool (loadDeckResumes p s) = imagePool s" "inFlight (loadDeckResumes p s) = inFlight s"
  "version (loadDeckResumes p s) = version s" "timers (loadDeckResumes p s) = timers s"
  "nextTimer (loadDeckResumes p s) = nextTimer s" "objectUrls (loadDeckResumes p s) = objectUrls s"
  by (simp_all add: loadDeckResumes_def Let_def)

lemma loadDeckResumes_passes:
  "passes (loadDeckResumes p s) = passes s
   \<or> (p < length (passes s)
       \<and> passes (loadDeckResumes p s) = (passes s)[p := (passes s ! p)\<lparr>awaitingAll := False\<rparr>])"
  by (simp add: loadDeckResumes_def Let_def)

lemma loadDeckResumes_ready:
  "isDeckReady (loadDeckResumes p s) =
     (isDeckReady s \<or>
      (p < length (passes s) \<and> awaitingAll (passes s ! p) \<and> \<not> cancelled (passes s ! p)
       \<and> list_all (\<lambda>job. snd job = Fulfilled) (fetchJobs (passes s ! p))))"
  by (auto simp add: loadDeckResumes_def Let_def list_ex_iff list_all_iff)

lemma passInv_awaiting:
  assumes inv: "passInv s" and p: "p < length (passes s)"
    and eq: "passes s' = (passes s)[p := (passes s ! p)\<lparr>awaitingAll := b\<rparr>]"
    and fr: "cats s' = cats s" "readyCount s' = readyCount s"
  shows "passInv s'"
proof -
  let ?pass' = "(passes s ! p)\<lparr>awaitingAll := b\<rparr>"
  have ne: "passes s' \<noteq> []" using inv eq by (simp add: passInv_def)
  have canc: "\<forall>q < length (passes s'). cancelled (passes s' ! q) = (Suc q < length (passes s'))"
    using inv p eq by (simp add: passInv_def nth_list_update)
  have l: "fetchJobs (last (passes s')) = fetchJobs (last (passes s))"
    using inv p eq
    by (cases "p = length (passes s) - 1") (simp_all add: passInv_def last_conv_nth)
  have rej: "\<forall>pass \<in> set (passes s'). \<forall>job \<in> set (fetchJobs pass). \<not> isRejected (snd job)"
  proof (intro ballI)
    fix pass job assume a: "pass \<in> set (passes s')" "job \<in> set (fetchJobs pass)"
    from a(1) have "pass = ?pass' \<or> pass \<in> set (passes s)"
      unfolding eq using set_update_subset_insert by fastforce
    moreover have "passes s ! p \<in> set (passes s)" using p by simp
    ultimately show "\<not> isRejected (snd job)" using a(2) inv by (auto simp: passInv_def)
  qed
  show ?thesis unfolding passInv_def using ne canc l rej fr inv by (simp add: passInv_def)
qed

lemma passInv_loadDeckResumes: "passInv s \<Longrightarrow> passInv (loadDeckResumes p s)"
  using loadDeckResumes_passes[of p s]
  by (auto intro: passInv_awaiting passInv_cong[THEN iffD2])

lemma settle_frame [simp]:
  "cats (settle p j oc s) = cats s" "activeIndex (settle p j oc s) = activeIndex s"
  "liked (settle p j oc s) = liked s" "swipeDirection (settle p j oc s) = swipeDirection s"
  "dragX (settle p j oc s) = dragX s" "isAnimating (settle p j oc s) = isAnimating s"
  "isDeckReady (settle p j oc s) = isDeckReady s" "timeoutRef (settle p j oc s) = timeoutRef s"
  "timers (settle p j oc s) = timers s" "nextTimer (settle p j oc s) = nextTimer s"
  "length (passes (settle p j oc s)) = length (passes s)"
  by (simp_all add: settle_def resumeJob_eq Let_def)

lemma settle_readyCount_mono: "readyCount s \<le> readyCount (settle p j oc s)"
  by (simp add: settle_def resumeJob_eq Let_def)

lemma settle_readyCount_le: "readyCount (settle p j oc s) \<le> Suc (readyCount s)"
  by (simp add: settle_def resumeJob_eq Let_def)

lemma passInv_step: "passInv s \<Longrightarrow> passInv (step e s)"
proof (cases e)
  case (Choice d)
  assume "passInv s"
  then show ?thesis by (simp add: step_def Choice passInv_cong[of "handleChoice d s" s])
next
  case (TimerFires t)
  assume "passInv s"
  then show ?thesis by (simp add: step_def TimerFires passInv_cong[of "timerFires t s" s])
next
  case (Reset d)
  assume "passInv s"
  then show ?thesis by (simp add: step_def Reset passInv_reset)
next
  case (Settle p j oc)
  assume "passInv s"
  then show ?thesis by (simp add: step_def Settle passInv_settle)
next
  case (LoadDeckResumes p)
  assume "passInv s"
  then show ?thesis by (simp add: step_def LoadDeckResumes passInv_loadDeckResumes)
next
  case (Swiping x l)
  assume "passInv s"
  then show ?thesis by (simp add: step_def Swiping passInv_cong[of "onSwiping x l s" s])
next
  case Swiped
  assume "passInv s"
  then show ?thesis by (simp add: step_def Swiped passInv_cong[of "onSwiped s" s])
qed

lemma readyInv_thresholdEffect:
  "readyInv (thresholdEffect h) =
     (if cats h = [] then isDeckReady h
      else (isDeckReady h \<longrightarrow> min INITIAL_READY_COUNT (length (cats h)) \<le> readyCount h))"
  by (auto simp add: readyInv_def thresholdEffect_ready INITIAL_READY_COUNT_def)

lemma readyInv_frame:
  "readyInv s \<Longrightarrow> cats h = cats s \<Longrightarrow> isDeckReady h = isDeckReady s \<Longrightarrow>
   readyCount s \<le> readyCount h \<Longrightarrow> readyInv (thresholdEffect h)"
  unfolding readyInv_thresholdEffect by (auto simp add: readyInv_def)

lemma passInv_all_settled:
  assumes "passInv s" "p < length (passes s)" "\<not> cancelled (passes s ! p)"
    "list_all (\<lambda>job. snd job = Fulfilled) (fetchJobs (passes s ! p))"
  shows "readyCount s = length (cats s)"
proof -
  have "p = length (passes s) - 1" using assms by (auto simp add: passInv_def)
  then have l: "last (passes s) = passes s ! p" using assms by (simp add: last_conv_nth passInv_def)
  have "settled (fetchJobs (passes s ! p)) = length (fetchJobs (passes s ! p))"
    using assms(4) by (simp add: settled_def list_all_iff)
  moreover have "length (fetchJobs (passes s ! p)) = length (cats s)"
    using assms(1) l by (metis length_map passInv_def)
  ultimately show ?thesis using assms(1) l by (simp add: passInv_def)
qed

lemma readyInv_step:
  assumes p: "passInv s" and r: "readyInv s"
  shows "readyInv (step e s)"
proof (cases e)
  case (Choice d)
  show ?thesis unfolding step_def Choice event.case by (rule readyInv_frame[OF r]) simp_all
next
  case (TimerFires t)
  show ?thesis unfolding step_def TimerFires event.case by (rule readyInv_frame[OF r]) simp_all
next
  case (Reset d)
  show ?thesis unfolding step_def Reset event.case
    by (simp add: readyInv_thresholdEffect prefetchEffect_eq resetDeck_eq)
next
  case (Settle p j oc)
  show ?thesis unfolding step_def Settle event.case
    by (rule readyInv_frame[OF r]) (simp_all add: settle_readyCount_mono)
next
  case (LoadDeckResumes q)
  show ?thesis unfolding step_def LoadDeckResumes event.case
    using r passInv_all_settled[OF p, of q]
    unfolding readyInv_thresholdEffect
    by (auto simp add: loadDeckResumes_ready readyInv_def)
next
  case (Swiping x l)
  show ?thesis unfolding step_def Swiping event.case by (rule readyInv_frame[OF r]) simp_all
next
  case Swiped
  show ?thesis unfolding step_def Swiped event.case by (rule readyInv_frame[OF r]) simp_all
qed

lemma readyInv_mount: "readyInv (mount firstDeck)"
  by (simp add: mount_def readyInv_thresholdEffect prefetchEffect_eq initialState_def)

lemma timerInv_mono:
  assumes "timerInv s"
    and "timeoutRef h = timeoutRef s" "timers h = timers s" "isAnimating h = isAnimating s"
    and "swipeDirection h = swipeDirection s" "activeIndex h = activeIndex s"
    and "cats h = cats s" "liked h = liked s" "isDeckReady s \<Longrightarrow> isDeckReady h"
  shows "timerInv h"
  using assms by (auto simp add: timerInv_def split: option.splits)

lemma timerInv_thresholdEffect: "timerInv h \<Longrightarrow> timerInv (thresholdEffect h)"
  by (erule timerInv_mono) (simp_all add: thresholdEffect_ready)

lemma timerInv_handleChoice: "timerInv s \<Longrightarrow> timerInv (handleChoice d s)"
  by (auto simp add: handleChoice_eq timerInv_def currentCat_def split: option.splits if_splits)

lemma timerInv_timerFires: "timerInv s \<Longrightarrow> timerInv (timerFires t s)"
  by (auto simp add: timerFires_eq timerInv_def split: option.splits if_splits)

lemma timerInv_reset: "timerInv s \<Longrightarrow> timerInv (prefetchEffect (prefetchCleanup (resetDeck d s)))"
  by (auto simp add: prefetchEffect_eq resetDeck_eq timerInv_def split: option.splits)

lemma timerInv_step: "timerInv s \<Longrightarrow> timerInv (step e s)"
proof (cases e)
  case (Choice d)
  assume "timerInv s"
  then show ?thesis unfolding step_def Choice event.case
    by (intro timerInv_thresholdEffect timerInv_handleChoice)
next
  case (TimerFires t)
  assume "timerInv s"
  then show ?thesis unfolding step_def TimerFires event.case
    by (intro timerInv_thresholdEffect timerInv_timerFires)
next
  case (Reset d)
  assume "timerInv s"
  then show ?thesis unfolding step_def Reset event.case
    by (intro timerInv_thresholdEffect timerInv_reset)
next
  case (Settle p j oc)
  assume "timerInv s"
  then show ?thesis unfolding step_def Settle event.case
    by (intro timerInv_thresholdEffect) (erule timerInv_mono, simp_all)
next
  case (LoadDeckResumes p)
  assume "timerInv s"
  then show ?thesis unfolding step_def LoadDeckResumes event.case
    by (intro timerInv_thresholdEffect) (erule timerInv_mono, simp_all add: loadDeckResumes_ready)
next
  case (Swiping x l)
  assume "timerInv s"
  then show ?thesis unfolding step_def Swiping event.case
    by (intro timerInv_thresholdEffect) (erule timerInv_mono, simp_all)
next
  case Swiped
  assume "timerInv s"
  then show ?thesis unfolding step_def Swiped event.case
    by (intro timerInv_thresholdEffect) (erule timerInv_mono, simp_all)
qed

lemma timerInv_mount: "timerInv (mount firstDeck)"
  unfolding mount_def
  by (rule timerInv_thresholdEffect) (simp add: timerInv_def prefetchEffect_eq initialState_def)

lemma passInv_lastD:
  assumes "passInv s"
  shows "last (passes s) = passes s ! (length (passes s) - 1)"
    and "length (passes s) - 1 < length (passes s)"
    and "\<not> cancelled (last (passes s))"
    and "length (fetchJobs (last (passes s))) = length (cats s)"
proof -
  show l: "last (passes s) = passes s ! (length (passes s) - 1)"
    using assms by (simp add: passInv_def last_conv_nth)
  show "length (passes s) - 1 < length (passes s)"
    using assms by (simp add: passInv_def)
  then show "\<not> cancelled (last (passes s))"
    using assms unfolding l by (simp add: passInv_def)
  show "length (fetchJobs (last (passes s))) = length (cats s)"
    using assms by (metis length_map passInv_def)
qed

lemma settle_superseded:
  assumes inv: "passInv s" and old: "Suc p < length (passes s)"
  shows "settle p j oc s = s
         \<or> (j < length (fetchJobs (passes s ! p)) \<and>
            settle p j oc s =
              s\<lparr>inFlight := inFlight s - {fst (fetchJobs (passes s ! p) ! j)},
                passes := (passes s)[p := (passes s ! p)\<lparr>fetchJobs :=
                   (fetchJobs (passes s ! p))[j := (fst (fetchJobs (passes s ! p) ! j), Fulfilled)]\<rparr>]\<rparr>)"
proof (cases "j < length (fetchJobs (passes s ! p)) \<and> snd (fetchJobs (passes s ! p) ! j) = Pending")
  case True
  moreover have "cancelled (passes s ! p)" using inv old by (simp add: passInv_def)
  ultimately show ?thesis using old by (simp add: settle_cancelled)
next
  case False
  then show ?thesis by (auto simp add: settle_disabled)
qed

lemma settle_superseded_last:
  assumes inv: "passInv s" and old: "Suc p < length (passes s)"
  shows "last (passes (settle p j oc s)) = last (passes s)"
  using settle_superseded[OF inv old, of j oc] inv old
  by (auto simp add: last_list_update passInv_def)

lemma settle_current:
  assumes inv: "passInv s" and cur: "Suc p = length (passes s)"
    and j: "j < length (fetchJobs (last (passes s)))"
    and pend: "snd (fetchJobs (last (passes s)) ! j) = Pending"
  shows "settle p j oc s =
     s\<lparr>objectUrls := registered oc (objectUrls s),
       imagePool := AList.update (fst (fetchJobs (last (passes s)) ! j))
          (cacheValue (fst (fetchJobs (last (passes s)) ! j)) oc) (imagePool s),
       version := version s + 1,
       inFlight := inFlight s - {fst (fetchJobs (last (passes s)) ! j)},
       readyCount := readyCount s + 1,
       passes := butlast (passes s) @ [(last (passes s))\<lparr>fetchJobs :=
          (fetchJobs (last (passes s)))[j := (fst (fetchJobs (last (passes s)) ! j), Fulfilled)]\<rparr>]\<rparr>"
proof -
  have p: "p = length (passes s) - 1" using cur by simp
  have l: "last (passes s) = passes s ! p" using passInv_lastD(1)[OF inv] p by simp
  have nc: "\<not> cancelled (passes s ! p)" using passInv_lastD(3)[OF inv] l by simp
  have ne: "passes s \<noteq> []" using inv by (simp add: passInv_def)
  have upd: "(passes s)[p := x] = butlast (passes s) @ [x]" for x
    using ne p by (cases "passes s" rule: rev_cases) (simp_all add: list_update_append)
  have en: "p < length (passes s)" "j < length (fetchJobs (passes s ! p))"
    "snd (fetchJobs (passes s ! p) ! j) = Pending"
    using cur j pend unfolding l by simp_all
  show ?thesis unfolding l upd[symmetric]
    by (rule settle_live[OF en nc])
qed

lemma settle_cancelled_frame:
  assumes "p < length (passes s)" "cancelled (passes s ! p)"
  shows "readyCount (settle p j oc s) = readyCount s"
    and "imagePool (settle p j oc s) = imagePool s"
    and "objectUrls (settle p j oc s) = objectUrls s"
    and "version (settle p j oc s) = version s"
  using assms by (simp_all add: settle_def resumeJob_eq Let_def)

lemma poolInv_cong:
  "fetchJobs (last (passes s')) = fetchJobs (last (passes s)) \<Longrightarrow> imagePool s' = imagePool s \<Longrightarrow>
   poolInv s' = poolInv s"
  by (simp add: poolInv_def)

lemma settle_not_current:
  assumes inv: "passInv s"
    and dis: "\<not> (Suc p = length (passes s) \<and> j < length (fetchJobs (last (passes s)))
      \<and> snd (fetchJobs (last (passes s)) ! j) = Pending)"
  shows "readyCount (settle p j oc s) = readyCount s"
    and "imagePool (settle p j oc s) = imagePool s"
    and "objectUrls (settle p j oc s) = objectUrls s"
    and "version (settle p j oc s) = version s"
    and "last (passes (settle p j oc s)) = last (passes s)"
proof -
  consider (old) "Suc p < length (passes s)" | (cur) "Suc p = length (passes s)"
    | (none) "length (passes s) \<le> p"
    by linarith
  then have "(readyCount (settle p j oc s) = readyCount s
    \<and> imagePool (settle p j oc s) = imagePool s
    \<and> objectUrls (settle p j oc s) = objectUrls s
    \<and> version (settle p j oc s) = version s)
    \<and> last (passes (settle p j oc s)) = last (passes s)"
  proof cases
    case old
    then have "cancelled (passes s ! p)" using inv by (simp add: passInv_def)
    with old show ?thesis
      using settle_cancelled_frame[of p s j oc] settle_superseded_last[OF inv old, of j oc]
      by simp
  next
    case cur
    then have "last (passes s) = passes s ! p"
      using passInv_lastD(1)[OF inv] by (metis diff_Suc_1)
    with cur dis have "settle p j oc s = s" by (auto simp add: settle_disabled)
    then show ?thesis by simp
  next
    case none
    then have "settle p j oc s = s" by (simp add: settle_disabled)
    then show ?thesis by simp
  qed
  then show "readyCount (settle p j oc s) = readyCount s"
    and "imagePool (settle p j oc s) = imagePool s"
    and "objectUrls (settle p j oc s) = objectUrls s"
    and "version (settle p j oc s) = version s"
    and "last (passes (settle p j oc s)) = last (passes s)"
    by simp_all
qed

lemma update_key_in: "k \<in> fst ` set (AList.update k v al)"
  by (induction al) auto

lemma poolInv_settle:
  assumes inv: "passInv s" and pool: "poolInv s"
  shows "poolInv (settle p j oc s)"
proof (cases "Suc p = length (passes s) \<and> j < length (fetchJobs (last (passes s)))
      \<and> snd (fetchJobs (last (passes s)) ! j) = Pending")
  case en: True
  let ?jobs = "fetchJobs (last (passes s))"
  let ?u = "fst (?jobs ! j)"
  let ?pool' = "AList.update ?u (cacheValue ?u oc) (imagePool s)"
  have eq: "fetchJobs (last (passes (settle p j oc s))) = ?jobs[j := (?u, Fulfilled)]"
    and pl: "imagePool (settle p j oc s) = ?pool'"
    using en by (simp_all add: settle_current[OF inv])
  have new: "?u \<in> fst ` set ?pool'"
    by (rule update_key_in)
  have old: "fst ` set (imagePool s) \<subseteq> fst ` set ?pool'"
    by (rule update_keys_superset)
  show ?thesis
    unfolding poolInv_def eq pl
  proof (intro ballI impI)
    fix job assume a: "job \<in> set (?jobs[j := (?u, Fulfilled)])" "snd job = Fulfilled \<and> fst job \<noteq> []"
    from a(1) have "job = (?u, Fulfilled) \<or> job \<in> set ?jobs"
      using set_update_subset_insert by fastforce
    then show "fst job \<in> fst ` set ?pool'"
    proof
      assume "job = (?u, Fulfilled)" then show ?thesis using new by simp
    next
      assume "job \<in> set ?jobs"
      with a(2) pool have "fst job \<in> fst ` set (imagePool s)" by (simp add: poolInv_def)
      then show ?thesis using old by blast
    qed
  qed
next
  case False
  show ?thesis
    using settle_not_current(2,5)[OF inv False, of oc] pool
    by (simp add: poolInv_cong[of "settle p j oc s" s])
qed

lemma poolInv_prefetchEffect: "imagePool s = [] \<Longrightarrow> poolInv (prefetchEffect s)"
  by (auto simp add: poolInv_def prefetchEffect_eq jobOf_def Map_has_def)

lemma loadDeckResumes_last:
  "passInv s \<Longrightarrow> fetchJobs (last (passes (loadDeckResumes p s))) = fetchJobs (last (passes s))"
  using loadDeckResumes_passes[of p s]
  by (cases "p = length (passes s) - 1") (auto simp add: last_conv_nth passInv_def)

lemma poolInv_step:
  assumes inv: "passInv s" and pool: "poolInv s"
  shows "poolInv (step e s)"
proof -
  have th: "poolInv (thresholdEffect h) = poolInv h" for h
    by (rule poolInv_cong) simp_all
  show ?thesis
  proof (cases e)
    case (Choice d)
    show ?thesis using pool by (simp add: step_def Choice th poolInv_cong[of "handleChoice d s" s])
  next
    case (TimerFires t)
    show ?thesis using pool by (simp add: step_def TimerFires th poolInv_cong[of "timerFires t s" s])
  next
    case (Reset d)
    show ?thesis by (simp add: step_def Reset th poolInv_prefetchEffect resetDeck_eq)
  next
    case (Settle p j oc)
    show ?thesis by (simp add: step_def Settle th poolInv_settle[OF inv pool])
  next
    case (LoadDeckResumes p)
    show ?thesis using pool
      by (simp add: step_def LoadDeckResumes th
          poolInv_cong[of "loadDeckResumes p s" s] loadDeckResumes_last[OF inv])
  next
    case (Swiping x l)
    show ?thesis using pool by (simp add: step_def Swiping th poolInv_cong[of "onSwiping x l s" s])
  next
    case Swiped
    show ?thesis using pool by (simp add: step_def Swiped th poolInv_cong[of "onSwiped s" s])
  qed
qed

lemma poolInv_mount: "poolInv (mount firstDeck)"
proof -
  have "poolInv (prefetchEffect (initialState firstDeck))"
    by (rule poolInv_prefetchEffect) (simp add: initialState_def)
  then show ?thesis by (simp add: mount_def poolInv_cong[of "thresholdEffect _"])
qed

lemma appInv_mount: "appInv (mount firstDeck)"
  by (simp add: appInv_def passInv_mount readyInv_mount timerInv_mount poolInv_mount)

lemma appInv_step: "appInv s \<Longrightarrow> appInv (step e s)"
  by (simp add: appInv_def passInv_step readyInv_step timerInv_step poolInv_step)

lemma appInv_run: "appInv s \<Longrightarrow> appInv (run evs s)"
  by (induction evs arbitrary: s) (simp_all add: appInv_step)

lemma appInv_reachable: "appInv (run evs (mount firstDeck))"
  by (rule appInv_run[OF appInv_mount])

lemma run_append: "run (xs @ ys) s = run ys (run xs s)"
  by (induction xs arbitrary: s) simp_all

lemma thresholdEffect_fix: "readyInv s \<Longrightarrow> thresholdEffect s = s"
  by (auto simp add: readyInv_def thresholdEffect_def Let_def split: if_splits)

lemma step_passes_length: "length (passes s) \<le> length (passes (step e s))"
proof (cases e)
  case (LoadDeckResumes p)
  then show ?thesis using loadDeckResumes_passes[of p s] by (auto simp add: step_def)
next
  case (Reset d)
  then show ?thesis by (simp add: step_def prefetchEffect_eq prefetchCleanup_passes)
qed (simp_all add: step_def)

lemma run_passes_length: "length (passes s) \<le> length (passes (run evs s))"
proof (induction evs arbitrary: s)
  case Nil show ?case by simp
next
  case (Cons e evs)
  show ?case using Cons[of "step e s"] step_passes_length[of s e] by simp
qed

lemma reset_passes_length: "length (passes (step (Reset d) s)) = Suc (length (passes s))"
  by (simp add: step_def prefetchEffect_eq prefetchCleanup_passes)

lemma startsWith_blob [simp]: "startsWith (''blob:'' @ h) ''blob:''"
  by (simp add: startsWith_def)

lemma cacheValue_cases: "cacheValue u oc = u \<or> startsWith (cacheValue u oc) ''blob:''"
  by (cases oc) (simp_all add: startsWith_def)

lemma cacheValue_failure: "isFailure oc \<Longrightarrow> cacheValue u oc = u"
  by (cases oc) simp_all

lemma passInv_job_url:
  assumes "passInv s" "j < length (fetchJobs (last (passes s)))"
  shows "fst (fetchJobs (last (passes s)) ! j) = url (cats s ! j)" "cats s ! j \<in> set (cats s)"
proof -
  have m: "map fst (fetchJobs (last (passes s))) = map url (cats s)"
    using assms(1) by (simp add: passInv_def)
  have l: "j < length (cats s)" using assms passInv_lastD(4) by simp
  show "fst (fetchJobs (last (passes s)) ! j) = url (cats s ! j)"
    using m assms(2) l by (metis nth_map)
  show "cats s ! j \<in> set (cats s)" using l by simp
qed

lemma remoteInv_cong:
  "cats s' = cats s \<Longrightarrow> imagePool s' = imagePool s \<Longrightarrow> remoteInv s' = remoteInv s"
  by (simp add: remoteInv_def)

lemma fallbackInv_cong:
  "imagePool s' = imagePool s \<Longrightarrow> fallbackInv s' = fallbackInv s"
  by (simp add: fallbackInv_def)

lemma remoteInv_settle:
  assumes inv: "passInv s" and r: "remoteInv s"
  shows "remoteInv (settle p j oc s)"
proof (cases "Suc p = length (passes s) \<and> j < length (fetchJobs (last (passes s)))
      \<and> snd (fetchJobs (last (passes s)) ! j) = Pending")
  case en: True
  let ?u = "fst (fetchJobs (last (passes s)) ! j)"
  have pl: "imagePool (settle p j oc s) = AList.update ?u (cacheValue ?u oc) (imagePool s)"
    using en by (simp add: settle_current[OF inv])
  have u: "\<not> startsWith ?u ''blob:''"
    using passInv_job_url[OF inv, of j] en r by (simp add: remoteInv_def)
  show ?thesis unfolding remoteInv_def pl
  proof (intro conjI ballI)
    fix c assume "c \<in> set (cats (settle p j oc s))"
    then show "\<not> startsWith (url c) ''blob:''" using r by (simp add: remoteInv_def)
  next
    fix e assume "e \<in> set (AList.update ?u (cacheValue ?u oc) (imagePool s))"
    then have "e = (?u, cacheValue ?u oc) \<or> e \<in> set (imagePool s)"
      by (rule update_set_cases)
    then show "\<not> startsWith (fst e) ''blob:''"
      using u r by (auto simp add: remoteInv_def)
  next
    fix e assume "e \<in> set (AList.update ?u (cacheValue ?u oc) (imagePool s))"
    then have "e = (?u, cacheValue ?u oc) \<or> e \<in> set (imagePool s)"
      by (rule update_set_cases)
    then show "snd e = fst e \<or> startsWith (snd e) ''blob:''"
      using cacheValue_cases[of ?u oc] r by (auto simp add: remoteInv_def)
  qed
next
  case False
  show ?thesis
    using settle_not_current(2)[OF inv False, of oc] r
    by (simp add: remoteInv_cong[of "settle p j oc s" s])
qed

lemma remoteInv_prefetchEffect:
  "imagePool s = [] \<Longrightarrow> \<forall>c \<in> set (cats s). \<not> startsWith (url c) ''blob:'' \<Longrightarrow>
   remoteInv (prefetchEffect s)"
  by (simp add: remoteInv_def prefetchEffect_eq)

lemma remoteInv_step:
  assumes inv: "passInv s" and r: "remoteInv s"
  shows "remoteInv (step e s)"
proof -
  have th: "remoteInv (thresholdEffect h) = remoteInv h" for h
    by (rule remoteInv_cong) simp_all
  show ?thesis
  proof (cases e)
    case (Choice d)
    show ?thesis using r by (simp add: step_def Choice th remoteInv_cong[of "handleChoice d s" s])
  next
    case (TimerFires t)
    show ?thesis using r by (simp add: step_def TimerFires th remoteInv_cong[of "timerFires t s" s])
  next
    case (Reset d)
    show ?thesis
      by (simp add: step_def Reset th remoteInv_prefetchEffect resetDeck_eq generateDeck_url)
  next
    case (Settle p j oc)
    show ?thesis by (simp add: step_def Settle th remoteInv_settle[OF inv r])
  next
    case (LoadDeckResumes p)
    show ?thesis using r
      by (simp add: step_def LoadDeckResumes th remoteInv_cong[of "loadDeckResumes p s" s])
  next
    case (Swiping x l)
    show ?thesis using r by (simp add: step_def Swiping th remoteInv_cong[of "onSwiping x l s" s])
  next
    case Swiped
    show ?thesis using r by (simp add: step_def Swiped th remoteInv_cong[of "onSwiped s" s])
  qed
qed

lemma remoteInv_run:
  "passInv s \<Longrightarrow> remoteInv s \<Longrightarrow> remoteInv (run evs s)"
  by (induction evs arbitrary: s) (simp_all add: remoteInv_step passInv_step)

lemma remoteInv_App: "remoteInv (run evs (App deckId))"
proof -
  have "remoteInv (prefetchEffect (initialState (generateDeck deckId TOTAL_CATS)))"
    by (rule remoteInv_prefetchEffect) (simp_all add: initialState_def generateDeck_url)
  then have "remoteInv (App deckId)"
    by (simp add: App_def mount_def remoteInv_cong[of "thresholdEffect _"])
  moreover have "passInv (App deckId)" by (simp add: App_def passInv_mount)
  ultimately show ?thesis by (simp add: remoteInv_run)
qed

lemma fallbackInv_settle:
  assumes inv: "passInv s" and f: "fallbackInv s" and oc: "isFailure oc"
  shows "fallbackInv (settle p j oc s)"
proof (cases "Suc p = length (passes s) \<and> j < length (fetchJobs (last (passes s)))
      \<and> snd (fetchJobs (last (passes s)) ! j) = Pending")
  case en: True
  let ?u = "fst (fetchJobs (last (passes s)) ! j)"
  have pl: "imagePool (settle p j oc s) = AList.update ?u ?u (imagePool s)"
    using en oc by (simp add: settle_current[OF inv] cacheValue_failure)
  show ?thesis unfolding fallbackInv_def pl
  proof
    fix e assume "e \<in> set (AList.update ?u ?u (imagePool s))"
    then have "e = (?u, ?u) \<or> e \<in> set (imagePool s)"
      by (rule update_set_cases)
    then show "snd e = fst e" using f by (auto simp add: fallbackInv_def)
  qed
next
  case False
  show ?thesis
    using settle_not_current(2)[OF inv False, of oc] f
    by (simp add: fallbackInv_cong[of "settle p j oc s" s])
qed

lemma fallbackInv_step:
  assumes inv: "passInv s" and f: "fallbackInv s" and e: "failing e"
  shows "fallbackInv (step e s)"
proof -
  have th: "fallbackInv (thresholdEffect h) = fallbackInv h" for h
    by (rule fallbackInv_cong) simp
  show ?thesis
  proof (cases e)
    case (Choice d)
    show ?thesis using f by (simp add: step_def Choice th fallbackInv_cong[of "handleChoice d s" s])
  next
    case (TimerFires t)
    show ?thesis using f by (simp add: step_def TimerFires th fallbackInv_cong[of "timerFires t s" s])
  next
    case (Reset d)
    show ?thesis
      by (simp add: step_def Reset th fallbackInv_def prefetchEffect_eq resetDeck_eq)
  next
    case (Settle p j oc)
    show ?thesis using e by (simp add: step_def Settle th fallbackInv_settle[OF inv f])
  next
    case (LoadDeckResumes p)
    show ?thesis using f
      by (simp add: step_def LoadDeckResumes th fallbackInv_cong[of "loadDeckResumes p s" s])
  next
    case (Swiping x l)
    show ?thesis using f by (simp add: step_def Swiping th fallbackInv_cong[of "onSwiping x l s" s])
  next
    case Swiped
    show ?thesis using f by (simp add: step_def Swiped th fallbackInv_cong[of "onSwiped s" s])
  qed
qed

lemma fallbackInv_run:
  "passInv s \<Longrightarrow> fallbackInv s \<Longrightarrow> list_all failing evs \<Longrightarrow> fallbackInv (run evs s)"
  by (induction evs arbitrary: s) (simp_all add: fallbackInv_step passInv_step)

lemma fallbackInv_mount: "fallbackInv (mount firstDeck)"
  by (simp add: mount_def fallbackInv_def prefetchEffect_eq initialState_def)

lemma map_of_fallback:
  "k \<in> fst ` set al \<Longrightarrow> \<forall>e \<in> set al. snd e = fst e \<Longrightarrow> map_of al k = Some k"
  by (induction al) auto

lemma pending_count:
  "\<forall>job \<in> set jobs. \<not> isRejected (snd job) \<Longrightarrow>
   length (filter (\<lambda>job. snd job = Pending) jobs) + settled jobs = length jobs"
proof (induction jobs)
  case Nil
  show ?case by (simp add: settled_def)
next
  case (Cons job jobs)
  then show ?case by (cases "snd job") (simp_all add: settled_Cons)
qed

lemma all_settled_count:
  "list_all (\<lambda>job. snd job = Fulfilled) jobs \<Longrightarrow> settled jobs = length jobs"
  by (simp add: settled_def list_all_iff)

lemma passInv_last_not_rejected:
  assumes "passInv s"
  shows "\<forall>job \<in> set (fetchJobs (last (passes s))). \<not> isRejected (snd job)"
proof -
  have "last (passes s) \<in> set (passes s)" using assms by (simp add: passInv_def)
  moreover have "\<forall>pass \<in> set (passes s). \<forall>job \<in> set (fetchJobs pass). \<not> isRejected (snd job)"
    using assms by (simp add: passInv_def)
  ultimately show ?thesis by blast
qed


lemma step_superseded:
  assumes inv: "appInv s" and old: "Suc p < length (passes s)"
  shows "step (Settle p j outcome) s = settle p j outcome s"
    and "step (LoadDeckResumes p) s = loadDeckResumes p s"
proof -
  have p: "passInv s" and r: "readyInv s" using inv by (simp_all add: appInv_def)
  have c: "cancelled (passes s ! p)" using p old by (simp add: passInv_def)
  have "readyInv (settle p j outcome s)"
    using r settle_cancelled_frame(1)[of p s j outcome] c old
    by (simp add: readyInv_def)
  then show "step (Settle p j outcome) s = settle p j outcome s"
    by (simp add: step_def thresholdEffect_fix)
  have "isDeckReady (loadDeckResumes p s) = isDeckReady s"
    using c by (simp add: loadDeckResumes_ready)
  then have "readyInv (loadDeckResumes p s)" using r by (simp add: readyInv_def)
  then show "step (LoadDeckResumes p) s = loadDeckResumes p s"
    by (simp add: step_def thresholdEffect_fix)
qed


lemma timerInv_timers_cases:
  assumes "timerInv s"
  shows "(timers s = [] \<and> timeoutRef s = None \<and> \<not> isAnimating s \<and> swipeDirection s = None)
    \<or> (\<exists>t d. timers s = [(t, d, cats s ! activeIndex s)] \<and> timeoutRef s = Some t
          \<and> isAnimating s \<and> swipeDirection s = Some d \<and> isDeckReady s
          \<and> activeIndex s < length (cats s))"
  using assms by (auto simp add: timerInv_def split: option.splits)

lemma jobOf_empty_pool:
  assumes "\<forall>c \<in> set cs. url c \<noteq> []"
  shows "settled (map (jobOf []) cs) = 0"
    and "{u. (u, Pending) \<in> set (map (jobOf []) cs)} = url ` set cs"
  using assms by (auto simp add: settled_def jobOf_def Map_has_def filter_empty_conv)

lemma prefetchEffect_fresh:
  assumes "imagePool s = []" "\<forall>c \<in> set (cats s). url c \<noteq> []"
  shows "prefetchEffect s =
     s\<lparr>isDeckReady := (cats s = []), readyCount := 0,
       inFlight := inFlight s \<union> url ` set (cats s),
       passes := passes s @ [\<lparr>cancelled = False,
                              fetchJobs = map (jobOf []) (cats s),
                              awaitingAll = (cats s \<noteq> [])\<rparr>]\<rparr>"
proof -
  have a: "settled (map (jobOf (imagePool s)) (cats s)) = 0"
    unfolding assms(1) by (rule jobOf_empty_pool(1)[OF assms(2)])
  have b: "{u. (u, Pending) \<in> set (map (jobOf (imagePool s)) (cats s))} = url ` set (cats s)"
    unfolding assms(1) by (rule jobOf_empty_pool(2)[OF assms(2)])
  show ?thesis unfolding prefetchEffect_eq a b by (simp add: assms(1))
qed

lemma reset_event_eq:
  "prefetchEffect (prefetchCleanup (resetDeck deckId s)) =
     (prefetchCleanup (resetDeck deckId s))
       \<lparr>isDeckReady := False, readyCount := 0,
        inFlight := url ` set (generateDeck deckId TOTAL_CATS),
        passes := passes (prefetchCleanup (resetDeck deckId s)) @
           [\<lparr>cancelled = False,
             fetchJobs = map (jobOf []) (generateDeck deckId TOTAL_CATS),
             awaitingAll = True\<rparr>]\<rparr>"
proof -
  let ?r = "prefetchCleanup (resetDeck deckId s)"
  have c: "cats ?r = generateDeck deckId TOTAL_CATS" "imagePool ?r = []" "inFlight ?r = {}"
    by (simp_all add: resetDeck_eq)
  have u: "\<forall>c \<in> set (cats ?r). url c \<noteq> []"
    unfolding c by (simp add: generateDeck_url)
  show ?thesis
    unfolding prefetchEffect_fresh[OF c(2) u] c by simp
qed


lemma keysInv_cong: "imagePool s' = imagePool s \<Longrightarrow> keysInv s' = keysInv s"
  by (simp add: keysInv_def)

lemma keysInv_settle:
  assumes inv: "passInv s" and k: "keysInv s"
  shows "keysInv (settle p j oc s)"
proof (cases "Suc p = length (passes s) \<and> j < length (fetchJobs (last (passes s)))
      \<and> snd (fetchJobs (last (passes s)) ! j) = Pending")
  case True
  then show ?thesis using k
    by (simp add: settle_current[OF inv] keysInv_def distinct_update)
next
  case False
  show ?thesis
    using settle_not_current(2)[OF inv False, of oc] k
    by (simp add: keysInv_cong[of "settle p j oc s" s])
qed

lemma keysInv_step:
  assumes inv: "passInv s" and k: "keysInv s"
  shows "keysInv (step e s)"
proof -
  have th: "keysInv (thresholdEffect h) = keysInv h" for h
    by (rule keysInv_cong) simp
  show ?thesis
  proof (cases e)
    case (Choice d)
    show ?thesis using k by (simp add: step_def Choice th keysInv_cong[of "handleChoice d s" s])
  next
    case (TimerFires t)
    show ?thesis using k by (simp add: step_def TimerFires th keysInv_cong[of "timerFires t s" s])
  next
    case (Reset d)
    show ?thesis by (simp add: step_def Reset th keysInv_def prefetchEffect_eq resetDeck_eq)
  next
    case (Settle p j oc)
    show ?thesis by (simp add: step_def Settle th keysInv_settle[OF inv k])
  next
    case (LoadDeckResumes p)
    show ?thesis using k
      by (simp add: step_def LoadDeckResumes th keysInv_cong[of "loadDeckResumes p s" s])
  next
    case (Swiping x l)
    show ?thesis using k by (simp add: step_def Swiping th keysInv_cong[of "onSwiping x l s" s])
  next
    case Swiped
    show ?thesis using k by (simp add: step_def Swiped th keysInv_cong[of "onSwiped s" s])
  qed
qed

lemma keysInv_run: "passInv s \<Longrightarrow> keysInv s \<Longrightarrow> keysInv (run evs s)"
  by (induction evs arbitrary: s) (simp_all add: keysInv_step passInv_step)

lemma flightInv_cong:
  "inFlight s' = inFlight s \<Longrightarrow> fetchJobs (last (passes s')) = fetchJobs (last (passes s)) \<Longrightarrow>
   flightInv s' = flightInv s"
  by (simp add: flightInv_def)

lemma pending_after_update:
  assumes "x \<in> fst ` {job \<in> set jobs. snd job = Pending}" "x \<noteq> fst (jobs ! j)"
  shows "x \<in> fst ` {job \<in> set (jobs[j := (u, v)]). snd job = Pending}"
proof -
  from assms(1) obtain i where i: "i < length jobs" "snd (jobs ! i) = Pending" "fst (jobs ! i) = x"
    by (auto simp add: in_set_conv_nth)
  then have "i \<noteq> j" using assms(2) by auto
  then have "jobs[j := (u, v)] ! i = jobs ! i" by simp
  moreover have "jobs[j := (u, v)] ! i \<in> set (jobs[j := (u, v)])" using i(1) by simp
  ultimately have "jobs ! i \<in> {job \<in> set (jobs[j := (u, v)]). snd job = Pending}"
    using i(2) by simp
  then show ?thesis using i(3) by force
qed

lemma flightInv_settle:
  assumes inv: "passInv s" and f: "flightInv s"
  shows "flightInv (settle p j oc s)"
proof (cases "Suc p = length (passes s) \<and> j < length (fetchJobs (last (passes s)))
      \<and> snd (fetchJobs (last (passes s)) ! j) = Pending")
  case en: True
  let ?jobs = "fetchJobs (last (passes s))"
  let ?u = "fst (?jobs ! j)"
  have eq: "fetchJobs (last (passes (settle p j oc s))) = ?jobs[j := (?u, Fulfilled)]"
    and fl: "inFlight (settle p j oc s) = inFlight s - {?u}"
    using en by (simp_all add: settle_current[OF inv])
  show ?thesis unfolding flightInv_def eq fl
  proof
    fix x assume "x \<in> inFlight s - {?u}"
    then have "x \<in> fst ` {job \<in> set ?jobs. snd job = Pending}" "x \<noteq> ?u"
      using f by (auto simp add: flightInv_def)
    then show "x \<in> fst ` {job \<in> set (?jobs[j := (?u, Fulfilled)]). snd job = Pending}"
      by (rule pending_after_update)
  qed
next
  case False
  have l: "last (passes (settle p j oc s)) = last (passes s)"
    by (rule settle_not_current(5)[OF inv False])
  have "inFlight (settle p j oc s) \<subseteq> inFlight s"
    by (auto simp add: settle_def resumeJob_eq Let_def)
  then show ?thesis using f unfolding flightInv_def l by blast
qed

lemma pending_urls:
  "{u. (u, Pending) \<in> set jobs} = fst ` {job \<in> set jobs. snd job = Pending}"
  by force

lemma flightInv_prefetchEffect: "inFlight s = {} \<Longrightarrow> flightInv (prefetchEffect s)"
  unfolding flightInv_def prefetchEffect_eq pending_urls by simp

lemma flightInv_step:
  assumes inv: "passInv s" and f: "flightInv s"
  shows "flightInv (step e s)"
proof -
  have th: "flightInv (thresholdEffect h) = flightInv h" for h
    by (rule flightInv_cong) simp_all
  show ?thesis
  proof (cases e)
    case (Choice d)
    show ?thesis using f by (simp add: step_def Choice th flightInv_cong[of "handleChoice d s" s])
  next
    case (TimerFires t)
    show ?thesis using f by (simp add: step_def TimerFires th flightInv_cong[of "timerFires t s" s])
  next
    case (Reset d)
    show ?thesis by (simp add: step_def Reset th flightInv_prefetchEffect resetDeck_eq)
  next
    case (Settle p j oc)
    show ?thesis by (simp add: step_def Settle th flightInv_settle[OF inv f])
  next
    case (LoadDeckResumes p)
    show ?thesis using f
      by (simp add: step_def LoadDeckResumes th
          flightInv_cong[of "loadDeckResumes p s" s] loadDeckResumes_last[OF inv])
  next
    case (Swiping x l)
    show ?thesis using f by (simp add: step_def Swiping th flightInv_cong[of "onSwiping x l s" s])
  next
    case Swiped
    show ?thesis using f by (simp add: step_def Swiped th flightInv_cong[of "onSwiped s" s])
  qed
qed

lemma flightInv_run: "passInv s \<Longrightarrow> flightInv s \<Longrightarrow> flightInv (run evs s)"
  by (induction evs arbitrary: s) (simp_all add: flightInv_step passInv_step)

lemma flightInv_reachable: "flightInv (run evs (mount firstDeck))"
proof -
  have "flightInv (prefetchEffect (initialState firstDeck))"
    by (rule flightInv_prefetchEffect) (simp add: initialState_def)
  then have "flightInv (mount firstDeck)"
    by (simp add: mount_def flightInv_cong[of "thresholdEffect _"])
  then show ?thesis by (rule flightInv_run[OF passInv_mount])
qed

lemma inFlight_deck_urls:
  assumes "passInv s" "flightInv s"
  shows "inFlight s \<subseteq> url ` set (cats s)"
proof -
  have "fst ` set (fetchJobs (last (passes s))) = url ` set (cats s)"
    using assms(1) by (metis passInv_def set_map)
  then show ?thesis using assms(2) unfolding flightInv_def by blast
qed

section \<open>The properties\<close>

text \<open>
  C1: in every state a mounted component can reach, the latest prefetch pass has one job
  per card of the deck, and once all of them have settled the deck is ready and
  \<open>readyCount\<close> is the length of the deck; a component mounted with an empty deck is
  ready at once.
\<close>

theorem settled_pass_is_ready:
  assumes "s = run evs (mount firstDeck)"
  shows "length (fetchJobs (last (passes s))) = length (cats s)
    \<and> (list_all (\<lambda>job. snd job = Fulfilled) (fetchJobs (last (passes s)))
         \<longrightarrow> isDeckReady s \<and> readyCount s = length (cats s))
    \<and> isDeckReady (mount []) \<and> readyCount (mount []) = 0"
proof -
  have inv: "appInv s" unfolding assms by (rule appInv_reachable)
  then have p: "passInv s" and r: "readyInv s" by (simp_all add: appInv_def)
  have len: "length (fetchJobs (last (passes s))) = length (cats s)"
    by (rule passInv_lastD(4)[OF p])
  have "isDeckReady s \<and> readyCount s = length (cats s)"
    if a: "list_all (\<lambda>job. snd job = Fulfilled) (fetchJobs (last (passes s)))"
  proof -
    have c: "readyCount s = length (cats s)"
      using p len all_settled_count[OF a] by (simp add: passInv_def)
    then show ?thesis using r by (simp add: readyInv_def split: if_splits)
  qed
  moreover have "isDeckReady (mount []) \<and> readyCount (mount []) = 0"
    by (simp add: mount_def prefetchEffect_eq initialState_def settled_def thresholdEffect_ready)
  ultimately show ?thesis using len by blast
qed

theorem settled_pass_is_ready_witness:
  "list_all (\<lambda>job. snd job = Fulfilled)
     (fetchJobs (last (passes
        (run [Settle 0 1 BadStatus, Settle 0 0 (Fetched ''x''), Settle 0 2 NetworkError]
           (mount (generateDeck ''d'' 3))))))
   \<and> isDeckReady
        (run [Settle 0 1 BadStatus, Settle 0 0 (Fetched ''x''), Settle 0 2 NetworkError]
           (mount (generateDeck ''d'' 3)))
   \<and> readyCount
        (run [Settle 0 1 BadStatus, Settle 0 0 (Fetched ''x''), Settle 0 2 NetworkError]
           (mount (generateDeck ''d'' 3))) = 3"
proof -
  let ?s = "run [Settle 0 1 BadStatus, Settle 0 0 (Fetched ''x''), Settle 0 2 NetworkError]
           (mount (generateDeck ''d'' 3))"
  have h: "list_all (\<lambda>job. snd job = Fulfilled) (fetchJobs (last (passes ?s)))"
    by code_simp
  have n: "length (cats ?s) = 3" by code_simp
  from settled_pass_is_ready[OF refl, of "[Settle 0 1 BadStatus, Settle 0 0 (Fetched ''x''), Settle 0 2 NetworkError]" "generateDeck ''d'' 3"] h n
  show ?thesis by simp
qed

text \<open>
  C2: while the deck is not empty, it is ready exactly when \<open>readyCount\<close> has reached
  the smaller of the early threshold 3 and the length of the deck. The jobs still
  pending are as many as the cards not yet counted, so on a deck of more than 3 cards
  the deck is ready at a count of 3 with jobs still pending.
\<close>

theorem ready_from_threshold:
  assumes "s = run evs (mount firstDeck)" and "cats s \<noteq> []"
  shows "isDeckReady s = (min INITIAL_READY_COUNT (length (cats s)) \<le> readyCount s)
    \<and> length (filter (\<lambda>job. snd job = Pending) (fetchJobs (last (passes s))))
        = length (cats s) - readyCount s
    \<and> (INITIAL_READY_COUNT < length (cats s) \<and> readyCount s = INITIAL_READY_COUNT
         \<longrightarrow> isDeckReady s
             \<and> list_ex (\<lambda>job. snd job = Pending) (fetchJobs (last (passes s))))"
proof -
  have inv: "appInv s" unfolding assms by (rule appInv_reachable)
  then have p: "passInv s" and r: "readyInv s" by (simp_all add: appInv_def)
  let ?jobs = "fetchJobs (last (passes s))"
  have rdy: "isDeckReady s = (min INITIAL_READY_COUNT (length (cats s)) \<le> readyCount s)"
    using r assms(2) by (simp add: readyInv_def)
  have "\<forall>job \<in> set ?jobs. \<not> isRejected (snd job)"
    by (rule passInv_last_not_rejected[OF p])
  then have "length (filter (\<lambda>job. snd job = Pending) ?jobs) + settled ?jobs = length ?jobs"
    by (rule pending_count)
  then have cnt: "length (filter (\<lambda>job. snd job = Pending) ?jobs) = length (cats s) - readyCount s"
    using p passInv_lastD(4)[OF p] by (simp add: passInv_def)
  have "isDeckReady s \<and> list_ex (\<lambda>job. snd job = Pending) ?jobs"
    if a: "INITIAL_READY_COUNT < length (cats s) \<and> readyCount s = INITIAL_READY_COUNT"
  proof
    show "isDeckReady s" using rdy a by simp
    have "0 < length (filter (\<lambda>job. snd job = Pending) ?jobs)" using cnt a by simp
    then have "filter (\<lambda>job. snd job = Pending) ?jobs \<noteq> []" by simp
    then show "list_ex (\<lambda>job. snd job = Pending) ?jobs"
      by (simp add: list_ex_iff filter_empty_conv)
  qed
  then show ?thesis using rdy cnt by blast
qed

theorem ready_from_threshold_witness:
  "cats (run [Settle 0 4 BadStatus, Settle 0 0 (Fetched ''x''), Settle 0 7 (Fetched ''y'')]
          (App ''d'')) \<noteq> []
   \<and> readyCount (run [Settle 0 4 BadStatus, Settle 0 0 (Fetched ''x''), Settle 0 7 (Fetched ''y'')]
          (App ''d'')) = 3
   \<and> isDeckReady (run [Settle 0 4 BadStatus, Settle 0 0 (Fetched ''x''), Settle 0 7 (Fetched ''y'')]
          (App ''d''))
   \<and> length (filter (\<lambda>job. snd job = Pending) (fetchJobs (last (passes
         (run [Settle 0 4 BadStatus, Settle 0 0 (Fetched ''x''), Settle 0 7 (Fetched ''y'')]
          (App ''d'')))))) = 9
   \<and> \<not> isDeckReady (run [Settle 0 4 BadStatus, Settle 0 0 (Fetched ''x'')] (App ''d''))"
proof -
  let ?evs = "[Settle 0 4 BadStatus, Settle 0 0 (Fetched ''x''), Settle 0 7 (Fetched ''y'')]"
  let ?s = "run ?evs (App ''d'')"
  have ne: "cats ?s \<noteq> []" by code_simp
  have n: "length (cats ?s) = 12" by code_simp
  have c: "readyCount ?s = 3" by code_simp
  have b: "\<not> isDeckReady (run [Settle 0 4 BadStatus, Settle 0 0 (Fetched ''x'')] (App ''d''))"
    by code_simp
  from ready_from_threshold[OF _ ne, of ?evs "generateDeck ''d'' TOTAL_CATS"] ne n c b
  show ?thesis by (simp add: App_def INITIAL_READY_COUNT_def)
qed

text \<open>
  C3: no job of any pass is ever rejected, so no error leaves the prefetch pipeline. When
  the fetch of a pending job of the latest pass fails (the network fails, the status is
  not a success, or the body cannot be read), the pool maps the job's URL to that URL,
  \<open>readyCount\<close> grows by one and the job's promise is fulfilled. After a run in which
  every fetch that settled has failed, once all jobs of the latest pass have settled
  \<open>readyCount\<close> is the length of the deck, the deck is ready and the pool maps every
  card's URL to itself (a card with an empty URL is never fetched).
\<close>

theorem failed_fetch_falls_back:
  assumes "s = run evs (mount firstDeck)"
  shows "(\<forall>pass \<in> set (passes s). \<forall>job \<in> set (fetchJobs pass). \<not> isRejected (snd job))
    \<and> (isFailure outcome \<and> Suc p = length (passes s)
        \<and> j < length (fetchJobs (last (passes s)))
        \<and> fetchJobs (last (passes s)) ! j = (u, Pending)
       \<longrightarrow> map_of (imagePool (step (Settle p j outcome) s)) u = Some u
           \<and> readyCount (step (Settle p j outcome) s) = readyCount s + 1
           \<and> fetchJobs (last (passes (step (Settle p j outcome) s))) ! j = (u, Fulfilled))
    \<and> (list_all failing evs
        \<and> list_all (\<lambda>job. snd job = Fulfilled) (fetchJobs (last (passes s)))
       \<longrightarrow> readyCount s = length (cats s) \<and> isDeckReady s
           \<and> (\<forall>c \<in> set (cats s). url c \<noteq> [] \<longrightarrow>
                 map_of (imagePool s) (url c) = Some (url c)))"
proof -
  have inv: "appInv s" unfolding assms by (rule appInv_reachable)
  then have p: "passInv s" and r: "readyInv s" and pl: "poolInv s" by (simp_all add: appInv_def)
  let ?jobs = "fetchJobs (last (passes s))"
  have A: "\<forall>pass \<in> set (passes s). \<forall>job \<in> set (fetchJobs pass). \<not> isRejected (snd job)"
    using p by (simp add: passInv_def)
  have B: "map_of (imagePool (step (Settle p j outcome) s)) u = Some u
           \<and> readyCount (step (Settle p j outcome) s) = readyCount s + 1
           \<and> fetchJobs (last (passes (step (Settle p j outcome) s))) ! j = (u, Fulfilled)"
    if a: "isFailure outcome \<and> Suc p = length (passes s) \<and> j < length ?jobs
        \<and> ?jobs ! j = (u, Pending)"
  proof -
    have eq: "settle p j outcome s =
       s\<lparr>objectUrls := registered outcome (objectUrls s),
         imagePool := AList.update u u (imagePool s),
         version := version s + 1,
         inFlight := inFlight s - {u},
         readyCount := readyCount s + 1,
         passes := butlast (passes s) @ [(last (passes s))\<lparr>fetchJobs :=
            ?jobs[j := (u, Fulfilled)]\<rparr>]\<rparr>"
    proof -
      have cur: "Suc p = length (passes s)" and jlt: "j < length ?jobs" using a by simp_all
      have pend: "snd (?jobs ! j) = Pending" and fstu: "fst (?jobs ! j) = u" using a by simp_all
      have cv: "cacheValue u outcome = u" using a by (simp add: cacheValue_failure)
      show ?thesis using settle_current[OF p cur jlt pend, of outcome] unfolding fstu cv .
    qed
    have "step (Settle p j outcome) s = thresholdEffect (settle p j outcome s)"
      by (simp add: step_def)
    then show ?thesis using a by (simp add: eq map_of_update_same)
  qed
  have C: "readyCount s = length (cats s) \<and> isDeckReady s
           \<and> (\<forall>c \<in> set (cats s). url c \<noteq> [] \<longrightarrow>
                 map_of (imagePool s) (url c) = Some (url c))"
    if a: "list_all failing evs \<and> list_all (\<lambda>job. snd job = Fulfilled) ?jobs"
  proof -
    have fb: "fallbackInv s" unfolding assms
      using a by (intro fallbackInv_run passInv_mount fallbackInv_mount) simp
    have len: "length ?jobs = length (cats s)" by (rule passInv_lastD(4)[OF p])
    have c: "readyCount s = length (cats s)"
      using p len all_settled_count[of ?jobs] a by (simp add: passInv_def)
    then have rdy: "isDeckReady s" using r by (simp add: readyInv_def split: if_splits)
    have "map_of (imagePool s) (url c) = Some (url c)" if c: "c \<in> set (cats s)" "url c \<noteq> []" for c
    proof -
      from c(1) obtain i where i: "i < length (cats s)" "cats s ! i = c"
        by (auto simp add: in_set_conv_nth)
      then have "fst (?jobs ! i) = url c" using passInv_job_url(1)[OF p, of i] len by simp
      moreover have "snd (?jobs ! i) = Fulfilled" using a i len by (simp add: list_all_length)
      moreover have "?jobs ! i \<in> set ?jobs" using i len by simp
      ultimately have "url c \<in> fst ` set (imagePool s)"
        using pl c(2) unfolding poolInv_def by metis
      then show ?thesis using fb by (simp add: map_of_fallback fallbackInv_def)
    qed
    then show ?thesis using c rdy by blast
  qed
  show ?thesis by (rule conjI[OF A conjI[OF impI[OF B] impI[OF C]]])
qed

theorem failed_fetch_falls_back_witness:
  "list_all failing allFail3
   \<and> list_all (\<lambda>job. snd job = Fulfilled) (fetchJobs (last (passes (run allFail3 (mount deck3)))))
   \<and> readyCount (run allFail3 (mount deck3)) = 3
   \<and> isDeckReady (run allFail3 (mount deck3))
   \<and> map (\<lambda>c. map_of (imagePool (run allFail3 (mount deck3))) (url c)) deck3
       = map (\<lambda>c. Some (url c)) deck3
   \<and> fetchJobs (last (passes (run [] (mount deck3)))) ! 1 = (url (deck3 ! 1), Pending)
   \<and> map_of (imagePool (step (Settle 0 1 BadStatus) (run [] (mount deck3)))) (url (deck3 ! 1))
       = Some (url (deck3 ! 1))
   \<and> readyCount (step (Settle 0 1 BadStatus) (run [] (mount deck3))) = 1"
proof -
  let ?s = "run allFail3 (mount deck3)"
  have h: "list_all failing allFail3
    \<and> list_all (\<lambda>job. snd job = Fulfilled) (fetchJobs (last (passes ?s)))"
    by code_simp
  have d: "cats ?s = deck3" by code_simp
  have n: "length deck3 = 3" by code_simp
  have u: "list_all (\<lambda>c. url c \<noteq> []) deck3" by code_simp
  from failed_fetch_falls_back[OF refl, of allFail3 deck3] h
  have "readyCount ?s = length (cats ?s) \<and> isDeckReady ?s
      \<and> (\<forall>c \<in> set (cats ?s). url c \<noteq> [] \<longrightarrow> map_of (imagePool ?s) (url c) = Some (url c))"
    by blast
  moreover have g: "fetchJobs (last (passes (run [] (mount deck3)))) ! 1
        = (url (deck3 ! 1), Pending)
      \<and> readyCount (run [] (mount deck3)) = 0"
    by code_simp
  moreover have g0: "isFailure BadStatus \<and> Suc 0 = length (passes (run [] (mount deck3)))
      \<and> 1 < length (fetchJobs (last (passes (run [] (mount deck3)))))"
    by code_simp
  from failed_fetch_falls_back[OF refl, of "[]" deck3 BadStatus 0 1 "url (deck3 ! 1)"] g g0
  have "map_of (imagePool (step (Settle 0 1 BadStatus) (run [] (mount deck3)))) (url (deck3 ! 1))
       = Some (url (deck3 ! 1))
      \<and> readyCount (step (Settle 0 1 BadStatus) (run [] (mount deck3)))
          = readyCount (run [] (mount deck3)) + 1"
    by blast
  ultimately show ?thesis using h d n u by (simp add: list_all_iff)
qed

text \<open>
  C4: after a reset, whatever happens next, when a job of a pass started before the reset
  settles, or the \<^verbatim>\<open>loadDeck\<close> of such a pass resumes, \<open>readyCount\<close>, the pool, the
  readiness flag and every other cell of the component but the in-flight set stay as
  they are, and the latest pass is untouched. The in-flight set, which nothing reads,
  loses at most the URL of the job that settled, and nothing when that URL is not one
  of the new deck.
\<close>

theorem superseded_pass_is_inert:
  assumes "s0 = run evs0 (mount firstDeck)"
    and "s = run evs1 (step (Reset deckId) s0)"
    and "p < length (passes s0)"
    and "s' = step (Settle p j outcome) s \<or> s' = step (LoadDeckResumes p) s"
  shows "readyCount s' = readyCount s \<and> imagePool s' = imagePool s
    \<and> isDeckReady s' = isDeckReady s \<and> cats s' = cats s
    \<and> objectUrls s' = objectUrls s \<and> version s' = version s
    \<and> activeIndex s' = activeIndex s \<and> liked s' = liked s
    \<and> swipeDirection s' = swipeDirection s \<and> isAnimating s' = isAnimating s
    \<and> timeoutRef s' = timeoutRef s \<and> timers s' = timers s
    \<and> last (passes s') = last (passes s)
    \<and> (inFlight s' = inFlight s
        \<or> inFlight s' = inFlight s - {fst (fetchJobs (passes s ! p) ! j)})
    \<and> (fst (fetchJobs (passes s ! p) ! j) \<notin> url ` set (cats s)
        \<longrightarrow> inFlight s' = inFlight s)"
proof -
  have "appInv s0" unfolding assms(1) by (rule appInv_reachable)
  then have inv: "appInv s" unfolding assms(2) by (intro appInv_run appInv_step)
  then have pi: "passInv s" by (simp add: appInv_def)
  have "Suc (length (passes s0)) \<le> length (passes s)"
    unfolding assms(2) using run_passes_length[of "step (Reset deckId) s0" evs1]
    by (simp add: reset_passes_length)
  then have old: "Suc p < length (passes s)" using assms(3) by simp
  then have c: "p < length (passes s)" "cancelled (passes s ! p)"
    using pi by (simp_all add: passInv_def)
  have "s = run (evs0 @ Reset deckId # evs1) (mount firstDeck)"
    unfolding assms(2) assms(1) by (simp add: run_append)
  then have "flightInv s" by (simp add: flightInv_reachable)
  then have urls: "inFlight s \<subseteq> url ` set (cats s)"
    by (rule inFlight_deck_urls[OF pi])
  from assms(4) show ?thesis
  proof
    assume "s' = step (Settle p j outcome) s"
    then have s': "s' = settle p j outcome s" by (simp add: step_superseded(1)[OF inv old])
    have "inFlight (settle p j outcome s) = inFlight s
        \<or> inFlight (settle p j outcome s) = inFlight s - {fst (fetchJobs (passes s ! p) ! j)}"
      using settle_superseded[OF pi old, of j outcome] by auto
    moreover have "inFlight (settle p j outcome s) = inFlight s"
      if "fst (fetchJobs (passes s ! p) ! j) \<notin> url ` set (cats s)"
      using settle_superseded[OF pi old, of j outcome] urls that by auto
    ultimately show ?thesis unfolding s'
      using settle_cancelled_frame[OF c, of j outcome] settle_superseded_last[OF pi old, of j outcome]
      by simp
  next
    assume "s' = step (LoadDeckResumes p) s"
    then have s': "s' = loadDeckResumes p s" by (simp add: step_superseded(2)[OF inv old])
    have "last (passes (loadDeckResumes p s)) = last (passes s)"
      using loadDeckResumes_passes[of p s] old pi
      by (auto simp add: last_list_update passInv_def)
    then show ?thesis unfolding s' using c by (simp add: loadDeckResumes_ready)
  qed
qed

theorem superseded_pass_is_inert_witness:
  "0 < length (passes (run [] (mount deck3)))
   \<and> readyCount afterReset = 1
   \<and> readyCount (step (Settle 0 0 (Fetched ''late'')) afterReset) = 1
   \<and> imagePool (step (Settle 0 0 (Fetched ''late'')) afterReset) = imagePool afterReset
   \<and> isDeckReady (step (Settle 0 0 (Fetched ''late'')) afterReset) = isDeckReady afterReset
   \<and> fst (fetchJobs (passes afterReset ! 0) ! 0) \<notin> url ` set (cats afterReset)
   \<and> inFlight (step (Settle 0 0 (Fetched ''late'')) afterReset) = inFlight afterReset"
proof -
  have h: "0 < length (passes (run [] (mount deck3)))" by code_simp
  have c: "readyCount afterReset = 1" by code_simp
  have u: "fst (fetchJobs (passes afterReset ! 0) ! 0) \<notin> url ` set (cats afterReset)"
    by code_simp
  from superseded_pass_is_inert[OF refl afterReset_def h disjI1[OF refl], of 0 "Fetched ''late''"]
    h c u
  show ?thesis by simp
qed


text \<open>
  C5: \<open>readyCount\<close> is the number of settled jobs of the latest pass, so each job is
  counted once, and it is at most the length of the deck. An event other than a reset
  never lowers it and raises it by at most one, and a job that has settled (at once on
  a pool hit or an empty URL, or later) does not count again.
\<close>

theorem readyCount_counts_settled_jobs:
  assumes "s = run evs (mount firstDeck)"
  shows "readyCount s = settled (fetchJobs (last (passes s)))
    \<and> readyCount s \<le> length (cats s)
    \<and> (\<not> isReset e \<longrightarrow>
          readyCount s \<le> readyCount (step e s) \<and> readyCount (step e s) \<le> readyCount s + 1)
    \<and> (j < length (fetchJobs (last (passes s)))
        \<and> snd (fetchJobs (last (passes s)) ! j) = Fulfilled
       \<longrightarrow> readyCount (step (Settle p j outcome) s) = readyCount s)"
proof -
  have inv: "appInv s" unfolding assms by (rule appInv_reachable)
  then have p: "passInv s" by (simp add: appInv_def)
  let ?jobs = "fetchJobs (last (passes s))"
  have A: "readyCount s = settled ?jobs" using p by (simp add: passInv_def)
  have B: "readyCount s \<le> length (cats s)"
    using A settled_le[of ?jobs] passInv_lastD(4)[OF p] by simp
  have C: "readyCount s \<le> readyCount (step e s) \<and> readyCount (step e s) \<le> readyCount s + 1"
    if "\<not> isReset e"
    using that
    by (cases e) (simp_all add: step_def settle_readyCount_mono settle_readyCount_le)
  have D: "readyCount (step (Settle p j outcome) s) = readyCount s"
    if a: "j < length ?jobs \<and> snd (?jobs ! j) = Fulfilled"
  proof -
    have "readyCount (settle p j outcome s) = readyCount s"
      by (rule settle_not_current(1)[OF p]) (use a in simp)
    then show ?thesis by (simp add: step_def)
  qed
  show ?thesis by (rule conjI[OF A conjI[OF B conjI[OF impI[OF C] impI[OF D]]]])
qed

theorem readyCount_counts_settled_jobs_witness:
  "\<not> isReset (Settle 0 1 (Fetched ''x''))
   \<and> readyCount (run [Settle 0 0 BadStatus] (mount deck3)) = 1
   \<and> readyCount (run [Settle 0 0 BadStatus] (mount deck3))
       \<le> readyCount (step (Settle 0 1 (Fetched ''x'')) (run [Settle 0 0 BadStatus] (mount deck3)))
   \<and> snd (fetchJobs (last (passes (run [Settle 0 0 BadStatus] (mount deck3)))) ! 0) = Fulfilled
   \<and> readyCount (step (Settle 0 0 NetworkError) (run [Settle 0 0 BadStatus] (mount deck3))) = 1"
proof -
  let ?s = "run [Settle 0 0 BadStatus] (mount deck3)"
  have h: "\<not> isReset (Settle 0 1 (Fetched ''x''))" by simp
  have c: "readyCount ?s = 1" by code_simp
  have f: "0 < length (fetchJobs (last (passes ?s)))
      \<and> snd (fetchJobs (last (passes ?s)) ! 0) = Fulfilled" by code_simp
  from readyCount_counts_settled_jobs[OF refl, of "[Settle 0 0 BadStatus]" deck3
      "Settle 0 1 (Fetched ''x'')" 0 0 NetworkError] h c f
  show ?thesis by simp
qed



text \<open>
  C7: from any state, \<^verbatim>\<open>resetDeck\<close> leaves no timeout under the identifier that
  \<open>timeoutRef\<close> held and clears \<open>timeoutRef\<close> (in a state the component can reach, no
  timeout is left at all), the pool and the in-flight set are empty, the deck is a newly
  generated one of 12 cards, \<open>activeIndex\<close> and \<open>readyCount\<close> are 0, the liked list is
  empty and the view is the loading one. After the render that follows, in which the
  prefetch effect starts the fetches of the new deck, all of this still holds but for
  the in-flight set, which then holds the URLs of the new deck.
\<close>

theorem resetDeck_restarts:
  "timeoutRef (resetDeck deckId s) = None
   \<and> (timeoutRef s = Some t \<longrightarrow> t \<notin> fst ` set (timers (resetDeck deckId s)))
   \<and> (s = run evs (mount firstDeck) \<longrightarrow> timers (resetDeck deckId s) = [])
   \<and> imagePool (resetDeck deckId s) = [] \<and> inFlight (resetDeck deckId s) = {}
   \<and> cats (resetDeck deckId s) = generateDeck deckId TOTAL_CATS
   \<and> length (cats (resetDeck deckId s)) = 12
   \<and> activeIndex (resetDeck deckId s) = 0 \<and> liked (resetDeck deckId s) = []
   \<and> readyCount (resetDeck deckId s) = 0
   \<and> viewState (resetDeck deckId s) = Loading
   \<and> viewState (step (Reset deckId) s) = Loading
   \<and> readyCount (step (Reset deckId) s) = 0
   \<and> imagePool (step (Reset deckId) s) = []
   \<and> cats (step (Reset deckId) s) = generateDeck deckId TOTAL_CATS
   \<and> activeIndex (step (Reset deckId) s) = 0 \<and> liked (step (Reset deckId) s) = []
   \<and> timeoutRef (step (Reset deckId) s) = None
   \<and> inFlight (step (Reset deckId) s) = url ` set (generateDeck deckId TOTAL_CATS)"
proof -
  have A: "t \<notin> fst ` set (timers (resetDeck deckId s))" if "timeoutRef s = Some t"
    using that by (auto simp add: resetDeck_eq)
  have B: "timers (resetDeck deckId s) = []" if a: "s = run evs (mount firstDeck)"
  proof -
    have "appInv s" unfolding a by (rule appInv_reachable)
    then have "timerInv s" by (simp add: appInv_def)
    from timerInv_timers_cases[OF this] show ?thesis
      by (auto simp add: resetDeck_eq)
  qed
  have C: "timeoutRef (resetDeck deckId s) = None
   \<and> imagePool (resetDeck deckId s) = [] \<and> inFlight (resetDeck deckId s) = {}
   \<and> cats (resetDeck deckId s) = generateDeck deckId TOTAL_CATS
   \<and> length (cats (resetDeck deckId s)) = 12
   \<and> activeIndex (resetDeck deckId s) = 0 \<and> liked (resetDeck deckId s) = []
   \<and> readyCount (resetDeck deckId s) = 0
   \<and> viewState (resetDeck deckId s) = Loading"
    by (simp add: resetDeck_eq viewState_def TOTAL_CATS_def)
  have D: "viewState (step (Reset deckId) s) = Loading
   \<and> readyCount (step (Reset deckId) s) = 0
   \<and> imagePool (step (Reset deckId) s) = []
   \<and> cats (step (Reset deckId) s) = generateDeck deckId TOTAL_CATS
   \<and> activeIndex (step (Reset deckId) s) = 0 \<and> liked (step (Reset deckId) s) = []
   \<and> timeoutRef (step (Reset deckId) s) = None
   \<and> inFlight (step (Reset deckId) s) = url ` set (generateDeck deckId TOTAL_CATS)"
  proof -
    have e: "step (Reset deckId) s
        = thresholdEffect (prefetchEffect (prefetchCleanup (resetDeck deckId s)))"
      by (simp add: step_def)
    show ?thesis unfolding e reset_event_eq
      by (simp add: viewState_def thresholdEffect_ready resetDeck_eq TOTAL_CATS_def
          INITIAL_READY_COUNT_def)
  qed
  show ?thesis using A B C D by blast
qed


theorem resetDeck_restarts_witness:
  "timeoutRef pending3 = Some 1 \<and> timers pending3 \<noteq> []
   \<and> 1 \<notin> fst ` set (timers (resetDeck ''next'' pending3))
   \<and> timers (resetDeck ''next'' pending3) = []
   \<and> viewState summary3 = Summary \<and> liked summary3 \<noteq> [] \<and> imagePool summary3 \<noteq> []
   \<and> viewState (resetDeck ''next'' summary3) = Loading
   \<and> activeIndex (resetDeck ''next'' summary3) = 0
   \<and> liked (resetDeck ''next'' summary3) = []
   \<and> imagePool (resetDeck ''next'' summary3) = []
   \<and> viewState (step (Reset ''next'') summary3) = Loading"
proof -
  have h: "timeoutRef pending3 = Some 1 \<and> timers pending3 \<noteq> []" by code_simp
  have g: "viewState summary3 = Summary \<and> liked summary3 \<noteq> [] \<and> imagePool summary3 \<noteq> []"
    by code_simp
  from resetDeck_restarts[where s = pending3 and t = 1 and deckId = "''next''"
      and evs = "allFail3 @ [Choice Right]" and firstDeck = deck3] h pending3_def
  have a: "1 \<notin> fst ` set (timers (resetDeck ''next'' pending3))
      \<and> timers (resetDeck ''next'' pending3) = []"
    by blast
  from resetDeck_restarts[where s = summary3 and deckId = "''next''"]
  have b: "viewState (resetDeck ''next'' summary3) = Loading
   \<and> activeIndex (resetDeck ''next'' summary3) = 0
   \<and> liked (resetDeck ''next'' summary3) = []
   \<and> imagePool (resetDeck ''next'' summary3) = []
   \<and> viewState (step (Reset ''next'') summary3) = Loading"
    by blast
  show ?thesis using h g a b by blast
qed


text \<open>
  C8: \<^verbatim>\<open>releasePool\<close> leaves the pool and the in-flight set empty, any number of further
  calls changes nothing more (so for the call made on unmount after a reset), and the
  object URLs it revokes are exactly the stored values that start with \<^verbatim>\<open>blob:\<close>.
  In every state the component reaches from \<^verbatim>\<open>App\<close>, those are exactly the values
  that are not the fallback (the key itself), so no fallback entry is revoked.
\<close>

theorem releasePool_repeatable:
  "imagePool (releasePool s) = [] \<and> inFlight (releasePool s) = {}
   \<and> (releasePool ^^ n) (releasePool s) = releasePool s
   \<and> objectUrls (releasePool s)
       = objectUrls s - {v \<in> snd ` set (imagePool s). startsWith v ''blob:''}
   \<and> imagePool (unmountCleanup (resetDeck deckId s)) = []
   \<and> inFlight (unmountCleanup (resetDeck deckId s)) = {}
   \<and> objectUrls (unmountCleanup (resetDeck deckId s)) = objectUrls (resetDeck deckId s)
   \<and> (s = run evs (App deckId)
        \<longrightarrow> (\<forall>e \<in> set (imagePool s). startsWith (snd e) ''blob:'' = (snd e \<noteq> fst e)))"
proof -
  have A: "imagePool (releasePool s) = [] \<and> inFlight (releasePool s) = {}
   \<and> (releasePool ^^ n) (releasePool s) = releasePool s
   \<and> objectUrls (releasePool s)
       = objectUrls s - {v \<in> snd ` set (imagePool s). startsWith v ''blob:''}
   \<and> imagePool (unmountCleanup (resetDeck deckId s)) = []
   \<and> inFlight (unmountCleanup (resetDeck deckId s)) = {}
   \<and> objectUrls (unmountCleanup (resetDeck deckId s)) = objectUrls (resetDeck deckId s)"
    by (simp add: releasePool_funpow)
      (simp add: releasePool_eq unmountCleanup_def clearTimeout_def resetDeck_eq)
  have B: "\<forall>e \<in> set (imagePool s). startsWith (snd e) ''blob:'' = (snd e \<noteq> fst e)"
    if a: "s = run evs (App deckId)"
  proof -
    have "remoteInv s" unfolding a by (rule remoteInv_App)
    then show ?thesis by (auto simp add: remoteInv_def)
  qed
  show ?thesis using A B by blast
qed

theorem releasePool_repeatable_witness:
  "imagePool mixedPool =
     [(url (generateDeck ''d'' 12 ! 0), ''blob:x''),
      (url (generateDeck ''d'' 12 ! 1), url (generateDeck ''d'' 12 ! 1))]
   \<and> objectUrls mixedPool = {''blob:x''}
   \<and> objectUrls (releasePool mixedPool) = {}
   \<and> imagePool (releasePool mixedPool) = []
   \<and> inFlight (releasePool mixedPool) = {}
   \<and> releasePool (releasePool (releasePool mixedPool)) = releasePool mixedPool
   \<and> list_all (\<lambda>e. startsWith (snd e) ''blob:'' = (snd e \<noteq> fst e)) (imagePool mixedPool)"
proof -
  have h: "imagePool mixedPool =
     [(url (generateDeck ''d'' 12 ! 0), ''blob:x''),
      (url (generateDeck ''d'' 12 ! 1), url (generateDeck ''d'' 12 ! 1))]
   \<and> objectUrls mixedPool = {''blob:x''}"
    by code_simp
  have o: "objectUrls (releasePool mixedPool) = {}" by code_simp
  from releasePool_repeatable[where s = mixedPool and n = 2 and deckId = "''d''"
      and evs = "[Settle 0 0 (Fetched ''x''), Settle 0 1 BadStatus]"] mixedPool_def
  have "imagePool (releasePool mixedPool) = [] \<and> inFlight (releasePool mixedPool) = {}
   \<and> (releasePool ^^ 2) (releasePool mixedPool) = releasePool mixedPool
   \<and> (\<forall>e \<in> set (imagePool mixedPool). startsWith (snd e) ''blob:'' = (snd e \<noteq> fst e))"
    by blast
  then show ?thesis using h o by (simp add: list_all_iff numeral_2_eq_2)
qed




text \<open>
  C10: while the deck is not ready, \<^verbatim>\<open>handleChoice\<close> returns the state as it is, also
  when there is a current card, and the two buttons are disabled. In a state the
  component can reach with the deck not ready, nothing is pending and nothing has been
  classified.
\<close>

theorem handleChoice_waits_for_ready:
  "(\<not> isDeckReady s \<longrightarrow> handleChoice direction s = s \<and> controlsDisabled s)
   \<and> (s = run evs (mount firstDeck) \<and> \<not> isDeckReady s
        \<longrightarrow> step (Choice direction) s = s
            \<and> timers s = [] \<and> timeoutRef s = None \<and> \<not> isAnimating s
            \<and> swipeDirection s = None \<and> activeIndex s = 0 \<and> liked s = [])"
proof -
  have A: "handleChoice direction s = s \<and> controlsDisabled s" if "\<not> isDeckReady s"
    using that by (simp add: handleChoice_eq controlsDisabled_def)
  have B: "step (Choice direction) s = s
            \<and> timers s = [] \<and> timeoutRef s = None \<and> \<not> isAnimating s
            \<and> swipeDirection s = None \<and> activeIndex s = 0 \<and> liked s = []"
    if a: "s = run evs (mount firstDeck) \<and> \<not> isDeckReady s"
  proof -
    have "s = run evs (mount firstDeck)" using a by (rule conjunct1)
    then have "appInv s" by (simp add: appInv_reachable)
    then have r: "readyInv s" and ti: "timerInv s" by (simp_all add: appInv_def)
    have nr: "\<not> isDeckReady s" using a by (rule conjunct2)
    have "step (Choice direction) s = s"
      using nr by (simp add: step_def handleChoice_eq thresholdEffect_fix[OF r])
    moreover have "timers s = [] \<and> timeoutRef s = None \<and> \<not> isAnimating s
        \<and> swipeDirection s = None"
      using timerInv_timers_cases[OF ti] nr by auto
    moreover have "activeIndex s = 0 \<and> liked s = []"
      using ti nr by (simp add: timerInv_def)
    ultimately show ?thesis by simp
  qed
  show ?thesis by (rule conjI[OF impI[OF A] impI[OF B]])
qed

theorem handleChoice_waits_for_ready_witness:
  "\<not> isDeckReady (run [] (mount deck3))
   \<and> currentCat (run [] (mount deck3)) = Some (deck3 ! 0)
   \<and> handleChoice Right (run [] (mount deck3)) = run [] (mount deck3)
   \<and> step (Choice Right) (run [] (mount deck3)) = run [] (mount deck3)
   \<and> activeIndex (run [] (mount deck3)) = 0"
proof -
  have h: "\<not> isDeckReady (run [] (mount deck3))
      \<and> currentCat (run [] (mount deck3)) = Some (deck3 ! 0)"
    by code_simp
  from handleChoice_waits_for_ready[where s = "run [] (mount deck3)" and direction = Right
      and evs = "[]" and firstDeck = deck3] h
  show ?thesis by blast
qed


section \<open>Further invariants of the pool and the in-flight set\<close>

text \<open>
  The pool never holds two entries for one URL, also when several cards share a URL.
\<close>

theorem pool_keys_distinct:
  "distinct (map fst (imagePool (run evs (mount firstDeck))))"
proof -
  have "keysInv (mount firstDeck)"
    by (simp add: keysInv_def mount_def prefetchEffect_eq initialState_def)
  then have "keysInv (run evs (mount firstDeck))"
    by (rule keysInv_run[OF passInv_mount])
  then show ?thesis by (simp add: keysInv_def)
qed


text \<open>
  Every URL in the in-flight set is the URL of a pending job of the latest pass; once all
  jobs of that pass have settled the set is empty.
\<close>

theorem in_flight_only_pending:
  "inFlight (run evs (mount firstDeck))
     \<subseteq> fst ` {job \<in> set (fetchJobs (last (passes (run evs (mount firstDeck))))).
                snd job = Pending}
   \<and> (list_all (\<lambda>job. snd job = Fulfilled) (fetchJobs (last (passes (run evs (mount firstDeck)))))
        \<longrightarrow> inFlight (run evs (mount firstDeck)) = {})"
proof -
  let ?s = "run evs (mount firstDeck)"
  have "flightInv ?s" by (rule flightInv_reachable)
  then have A: "inFlight ?s \<subseteq> fst ` {job \<in> set (fetchJobs (last (passes ?s))). snd job = Pending}"
    by (simp add: flightInv_def)
  have B: "inFlight ?s = {}"
    if "list_all (\<lambda>job. snd job = Fulfilled) (fetchJobs (last (passes ?s)))"
  proof -
    from that have "{job \<in> set (fetchJobs (last (passes ?s))). snd job = Pending} = {}"
      by (auto simp add: list_all_iff)
    with A show ?thesis by simp
  qed
  show ?thesis by (rule conjI[OF A impI[OF B]])
qed

theorem in_flight_only_pending_witness:
  "list_all (\<lambda>job. snd job = Fulfilled) (fetchJobs (last (passes (run allFail3 (mount deck3)))))
   \<and> inFlight (run allFail3 (mount deck3)) = {}
   \<and> inFlight (run [] (mount deck3)) = set (map url deck3)"
proof -
  have h: "list_all (\<lambda>job. snd job = Fulfilled)
      (fetchJobs (last (passes (run allFail3 (mount deck3)))))"
    by code_simp
  have i: "inFlight (run [] (mount deck3)) = set (map url deck3)" by code_simp
  from in_flight_only_pending[of allFail3 deck3] h i show ?thesis by blast
qed

end
